theory Spec2Isabelle
  imports Main "HOL-Library.Char_ord" "HOL-Library.List_Lexorder" "HOL-Library.Product_Lexorder"
begin

section \<open>Literals\<close>

text \<open>
  A \<^verbatim>\<open>Literal\<close> object has the two attributes \<^verbatim>\<open>symbol\<close> (a Python string) and
  \<^verbatim>\<open>negation\<close> (a bool). Its \<^verbatim>\<open>__eq__\<close> compares both attributes, so equality of
  records is the equality of the source; \<^verbatim>\<open>__hash__\<close> hashes a string computed from the
  two attributes, so equal literals have equal hashes and a Python set of literals is a
  set of these values. Strings are lists of 8-bit characters here, ordered as Python
  orders strings: lexicographically by code point.
\<close>

record literal =
  symbol :: string
  negation :: bool

text \<open>\<^verbatim>\<open>Literal.__lt__\<close>: by symbol first, then \<^verbatim>\<open>False < True\<close> on the negation flag.\<close>

definition lt_literal :: "literal \<Rightarrow> literal \<Rightarrow> bool" where
  "lt_literal self other =
     (if symbol self \<noteq> symbol other then symbol self < symbol other
      else negation self < negation other)"

text \<open>\<^verbatim>\<open>Literal.negate\<close> flips the flag.\<close>

definition negate :: "literal \<Rightarrow> literal" where
  "negate self = self\<lparr>negation := \<not> negation self\<rparr>"

text \<open>\<^verbatim>\<open>Literal.is_opposite\<close>.\<close>

definition is_opposite :: "literal \<Rightarrow> literal \<Rightarrow> bool" where
  "is_opposite self other = (negation self \<noteq> negation other \<and> symbol self = symbol other)"

section \<open>Clauses\<close>

text \<open>A \<^verbatim>\<open>Clause\<close> object has the one attribute \<^verbatim>\<open>literals\<close>, a Python list.\<close>

record clause =
  literals :: "literal list"

definition empty_clause :: clause where
  "empty_clause = \<lparr>literals = []\<rparr>"

definition is_empty :: "clause \<Rightarrow> bool" where
  "is_empty self = (length (literals self) = 0)"

definition add_literal :: "clause \<Rightarrow> literal \<Rightarrow> clause" where
  "add_literal self l = self\<lparr>literals := literals self @ [l]\<rparr>"

text \<open>
  \<^verbatim>\<open>Clause.is_meaningless\<close> looks at each index and the next one, and returns at the
  first opposite neighbours.
\<close>

fun adjacent_opposite :: "literal list \<Rightarrow> bool" where
  "adjacent_opposite (x # y # zs) = (if is_opposite x y then True else adjacent_opposite (y # zs))"
| "adjacent_opposite _ = False"

definition is_meaningless :: "clause \<Rightarrow> bool" where
  "is_meaningless self = adjacent_opposite (literals self)"

text \<open>
  \<^verbatim>\<open>Clause.clean\<close> is \<^verbatim>\<open>sorted(set(self.literals))\<close>. The set keeps one literal of each
  value; \<^verbatim>\<open>sorted\<close> compares with \<^verbatim>\<open>__lt__\<close>, which is the strict order of the key
  \<open>lit_key\<close> (lemma \<open>lt_literal_key\<close> below), a linear order on literal values. The
  values being distinct, the sorted list does not depend on the order in which the set
  is iterated.
\<close>

definition lit_key :: "literal \<Rightarrow> string \<times> bool" where
  "lit_key l = (symbol l, negation l)"

definition clean :: "clause \<Rightarrow> clause" where
  "clean self = self\<lparr>literals := sort_key lit_key (remdups (literals self))\<rparr>"

text \<open>
  \<^verbatim>\<open>Clause.__eq__\<close> compares the two literal lists as sets. \<^verbatim>\<open>Clause.__hash__\<close> is
  \<^verbatim>\<open>hash(tuple(self.literals))\<close>: Python computes the hash of a tuple from the hashes of
  its elements in their order, and \<^verbatim>\<open>Literal.__hash__\<close> hashes the string \<^verbatim>\<open>'-' + symbol\<close>
  or \<^verbatim>\<open>symbol\<close>. The two built-in hash functions (of a string, of a tuple of element
  hashes) are parameters \<open>hs\<close> and \<open>ht\<close>: the source fixes neither, and string hashes
  change from one run of the interpreter to the next.
\<close>

definition eq_clause :: "clause \<Rightarrow> clause \<Rightarrow> bool" where
  "eq_clause self other = (set (literals self) = set (literals other))"

definition hash_literal :: "(string \<Rightarrow> int) \<Rightarrow> literal \<Rightarrow> int" where
  "hash_literal hs self = hs (if negation self then CHR ''-'' # symbol self else symbol self)"

definition hash_clause :: "(string \<Rightarrow> int) \<Rightarrow> (int list \<Rightarrow> int) \<Rightarrow> clause \<Rightarrow> int" where
  "hash_clause hs ht self = ht (map (hash_literal hs) (literals self))"

text \<open>\<^verbatim>\<open>Clause.negate_literals\<close> negates every literal of the clause.\<close>

definition negate_literals :: "clause \<Rightarrow> clause" where
  "negate_literals self = self\<lparr>literals := map negate (literals self)\<rparr>"

text \<open>
  \<^verbatim>\<open>Clause.clone_without_literal\<close> starts from a new clause and appends, in order, every
  literal that differs from the given one.
\<close>

definition clone_without_literal :: "clause \<Rightarrow> literal \<Rightarrow> clause" where
  "clone_without_literal self l =
     foldl (\<lambda>new_clause lit. if lit \<noteq> l then add_literal new_clause lit else new_clause)
       empty_clause (literals self)"

text \<open>\<^verbatim>\<open>Clause.merge\<close>: the two lists concatenated in a new clause, then cleaned.\<close>

definition merge :: "clause \<Rightarrow> clause \<Rightarrow> clause" where
  "merge clause1 clause2 = clean \<lparr>literals = literals clause1 @ literals clause2\<rparr>"

section \<open>Python sets of clauses\<close>

text \<open>
  The resolvents and the working set are Python sets of \<^verbatim>\<open>Clause\<close> objects. A set finds
  an element by its hash and then \<^verbatim>\<open>__eq__\<close>. On cleaned clauses (sorted, without
  duplicates) two clauses are \<^verbatim>\<open>__eq__\<close> exactly when their literal lists are the same
  list, and then their hashes agree too, so such a set is a set of clause values. Every
  clause that reaches a set in this program is cleaned: \<^verbatim>\<open>merge\<close> and
  \<^verbatim>\<open>parse_clause\<close> clean their result, and a negated query clause has one literal.

  The order in which Python iterates over a set is not fixed by the source. The model
  keeps a set as a list without repetitions, in the order of insertion. The verdict and
  the sets of new clauses of the rounds do not depend on that order
  (\<open>pl_resolution_order_independent\<close> below).
\<close>

definition set_add :: "'a \<Rightarrow> 'a list \<Rightarrow> 'a list" where
  "set_add x xs = (if x \<in> set xs then xs else xs @ [x])"

definition set_update :: "'a list \<Rightarrow> 'a list \<Rightarrow> 'a list" where
  "set_update xs ys = fold set_add ys xs"

definition set_difference :: "'a list \<Rightarrow> 'a list \<Rightarrow> 'a list" where
  "set_difference xs ys = filter (\<lambda>x. x \<notin> set ys) xs"

definition set_of_list :: "'a list \<Rightarrow> 'a list" where
  "set_of_list xs = set_update [] xs"

section \<open>Resolution of two clauses\<close>

text \<open>
  \<^verbatim>\<open>Clause.resolve\<close> runs two nested loops over the literals of the two clauses, with
  the local state \<^verbatim>\<open>resolvents\<close> and \<^verbatim>\<open>is_empty\<close>. \<open>resolve_body\<close> is the body of
  the inner loop: \<^verbatim>\<open>continue\<close> leaves the state as it is.
\<close>

definition resolve_body ::
  "clause \<Rightarrow> clause \<Rightarrow> literal \<Rightarrow> literal \<Rightarrow> clause list \<times> bool \<Rightarrow> clause list \<times> bool" where
  "resolve_body clause1 clause2 literal1 literal2 st =
     (case st of (resolvents, is_empty_flag) \<Rightarrow>
        if is_opposite literal1 literal2 then
          (let new_clause = merge (clone_without_literal clause1 literal1)
                                  (clone_without_literal clause2 literal2)
           in if is_meaningless new_clause then (resolvents, is_empty_flag)
              else (set_add new_clause resolvents,
                    if is_empty new_clause then True else is_empty_flag))
        else (resolvents, is_empty_flag))"

definition resolve :: "clause \<Rightarrow> clause \<Rightarrow> clause list \<times> bool" where
  "resolve clause1 clause2 =
     fold (\<lambda>literal1. fold (resolve_body clause1 clause2 literal1) (literals clause2))
       (literals clause1) ([], False)"

text \<open>
  The clause that the body of the inner loop builds for the pair \<open>(literal1, literal2)\<close>:
  a name for the argument of the tests in \<open>resolve_body\<close>.
\<close>

definition resolvent :: "clause \<Rightarrow> clause \<Rightarrow> literal \<Rightarrow> literal \<Rightarrow> clause" where
  "resolvent c1 c2 l1 l2 = merge (clone_without_literal c1 l1) (clone_without_literal c2 l2)"

section \<open>Facts about literals, clauses and sets\<close>

lemma lt_literal_key: "lt_literal a b \<longleftrightarrow> lit_key a < lit_key b"
  by (auto simp: lt_literal_def lit_key_def)

lemma inj_lit_key: "inj lit_key"
  by (rule injI) (simp add: lit_key_def)

lemma lit_key_eq_iff: "lit_key a = lit_key b \<longleftrightarrow> a = b"
  by (auto simp: lit_key_def)

lemma is_opposite_iff:
  "is_opposite x y \<longleftrightarrow>
     (\<exists>P. (x = \<lparr>symbol = P, negation = False\<rparr> \<and> y = \<lparr>symbol = P, negation = True\<rparr>) \<or>
          (x = \<lparr>symbol = P, negation = True\<rparr> \<and> y = \<lparr>symbol = P, negation = False\<rparr>))"
  by (cases x; cases y) (auto simp: is_opposite_def)

lemma adjacent_opposite_contains:
  "adjacent_opposite xs \<Longrightarrow>
     \<exists>P. \<lparr>symbol = P, negation = False\<rparr> \<in> set xs \<and> \<lparr>symbol = P, negation = True\<rparr> \<in> set xs"
proof (induction xs rule: adjacent_opposite.induct)
  case (1 x y zs)
  show ?case
  proof (cases "is_opposite x y")
    case True
    then show ?thesis unfolding is_opposite_iff by auto
  next
    case False
    with 1 obtain P where "\<lparr>symbol = P, negation = False\<rparr> \<in> set (y # zs)"
      "\<lparr>symbol = P, negation = True\<rparr> \<in> set (y # zs)" by auto
    then show ?thesis by auto
  qed
qed simp_all

lemma between_polarities:
  assumes "(P, False) \<le> lit_key y" "lit_key y \<le> (P, True)"
  shows "y = \<lparr>symbol = P, negation = False\<rparr> \<or> y = \<lparr>symbol = P, negation = True\<rparr>"
proof -
  from assms have "symbol y = P"
    by (auto simp: lit_key_def less_eq_prod_def)
  then show ?thesis by (cases y) auto
qed

lemma contains_adjacent_opposite:
  assumes "sorted (map lit_key xs)" "distinct xs"
    "\<lparr>symbol = P, negation = False\<rparr> \<in> set xs" "\<lparr>symbol = P, negation = True\<rparr> \<in> set xs"
  shows "adjacent_opposite xs"
  using assms
proof (induction xs rule: adjacent_opposite.induct)
  case (1 x y zs)
  let ?p = "\<lparr>symbol = P, negation = False\<rparr>" and ?n = "\<lparr>symbol = P, negation = True\<rparr>"
  show ?case
  proof (cases "is_opposite x y")
    case True
    then show ?thesis by simp
  next
    case False
    have "?p \<in> set (y # zs) \<and> ?n \<in> set (y # zs)"
    proof (rule ccontr)
      assume "\<not> ?thesis"
      with "1.prems" have x: "x = ?p \<or> x = ?n" by auto
      have le: "\<forall>z \<in> set (y # zs). lit_key x \<le> lit_key z"
        using "1.prems"(1) by auto
      have xp: "x = ?p"
      proof (rule ccontr)
        assume "x \<noteq> ?p"
        with x have "x = ?n" by simp
        moreover from this "1.prems" have "?p \<in> set (y # zs)" by auto
        ultimately show False using le by (auto simp: lit_key_def less_eq_prod_def)
      qed
      with "1.prems" have n: "?n \<in> set (y # zs)" by auto
      have "lit_key y \<le> lit_key ?n"
        using "1.prems"(1) n by auto
      moreover have "lit_key ?p \<le> lit_key y" using le xp by simp
      ultimately have "y = ?p \<or> y = ?n"
        using between_polarities [of P y] by (simp add: lit_key_def)
      moreover have "y \<noteq> x" using "1.prems"(2) by auto
      ultimately have "y = ?n" using xp by simp
      with xp have "is_opposite x y" by (simp add: is_opposite_def)
      with False show False by simp
    qed
    moreover have "sorted (map lit_key (y # zs))" "distinct (y # zs)"
      using "1.prems" by auto
    ultimately have "adjacent_opposite (y # zs)" using "1.IH" False by blast
    with False show ?thesis by simp
  qed
qed simp_all

lemma literals_clean [simp]: "literals (clean c) = sort_key lit_key (remdups (literals c))"
  by (simp add: clean_def)

lemma foldl_clone:
  "foldl (\<lambda>new_clause lit. if lit \<noteq> l then add_literal new_clause lit else new_clause) acc xs =
     acc\<lparr>literals := literals acc @ filter (\<lambda>lit. lit \<noteq> l) xs\<rparr>"
  by (induction xs arbitrary: acc) (simp_all add: add_literal_def)

lemma clone_without_literal_filter:
  "clone_without_literal c l = \<lparr>literals = filter (\<lambda>lit. lit \<noteq> l) (literals c)\<rparr>"
  by (simp add: clone_without_literal_def foldl_clone empty_clause_def)

lemma set_set_add [simp]: "set (set_add x xs) = insert x (set xs)"
  by (auto simp: set_add_def)

lemma distinct_set_add [simp]: "distinct (set_add x xs) = distinct xs"
  by (auto simp: set_add_def)

lemma set_set_update [simp]: "set (set_update xs ys) = set xs \<union> set ys"
  unfolding set_update_def by (induction ys arbitrary: xs) auto

lemma distinct_set_update [simp]: "distinct (set_update xs ys) = distinct xs"
  unfolding set_update_def by (induction ys arbitrary: xs) auto

lemma set_set_difference [simp]: "set (set_difference xs ys) = set xs - set ys"
  by (auto simp: set_difference_def)

lemma distinct_set_difference [simp]: "distinct xs \<Longrightarrow> distinct (set_difference xs ys)"
  by (simp add: set_difference_def)

lemma set_set_of_list [simp]: "set (set_of_list xs) = set xs"
  by (simp add: set_of_list_def)

lemma distinct_set_of_list [simp]: "distinct (set_of_list xs)"
  by (simp add: set_of_list_def)

lemma is_empty_iff: "is_empty c \<longleftrightarrow> c = empty_clause"
  by (cases c) (simp add: is_empty_def empty_clause_def)

lemma is_empty_not_meaningless: "is_empty c \<Longrightarrow> \<not> is_meaningless c"
  by (simp add: is_empty_def is_meaningless_def)

lemma clean_sorted: "sorted (map lit_key (literals (clean c)))"
  by (simp add: sorted_sort_key)

lemma clean_distinct: "distinct (literals (clean c))"
  by simp

lemma sort_key_remdups_cong:
  assumes "set xs = set ys"
  shows "sort_key lit_key (remdups xs) = sort_key lit_key (remdups ys)"
proof -
  let ?a = "sort_key lit_key (remdups xs)" and ?b = "sort_key lit_key (remdups ys)"
  have "sorted (map lit_key ?a)" "sorted (map lit_key ?b)"
    by (simp_all add: sorted_sort_key)
  moreover have "distinct (map lit_key ?a)" "distinct (map lit_key ?b)"
    by (simp_all add: distinct_map inj_on_def lit_key_eq_iff)
  moreover have "set (map lit_key ?a) = set (map lit_key ?b)"
    using assms by simp
  ultimately have "map lit_key ?a = map lit_key ?b"
    by (blast intro: sorted_distinct_set_unique)
  then show ?thesis
    using inj_lit_key by (simp add: inj_map_eq_map)
qed

lemma foldl_add_literal:
  "foldl add_literal acc xs = acc\<lparr>literals := literals acc @ xs\<rparr>"
  by (induction xs arbitrary: acc) (simp_all add: add_literal_def)

lemma clean_idem: "clean (clean c) = clean c"
proof -
  have "sort_key lit_key (remdups (literals (clean c))) = sort_key lit_key (remdups (literals c))"
    by (rule sort_key_remdups_cong) simp
  then show ?thesis by (simp add: clean_def)
qed

lemma clause_literals_eqI: "literals c = literals d \<Longrightarrow> c = (d :: clause)"
  by (cases c; cases d) simp

lemma eq_clause_iff_clean: "eq_clause c d \<longleftrightarrow> clean c = clean d"
proof
  assume "eq_clause c d"
  then have "set (literals c) = set (literals d)" by (simp add: eq_clause_def)
  then have "sort_key lit_key (remdups (literals c)) = sort_key lit_key (remdups (literals d))"
    by (rule sort_key_remdups_cong)
  then have "literals (clean c) = literals (clean d)" by simp
  then show "clean c = clean d" by (rule clause_literals_eqI)
next
  assume "clean c = clean d"
  then have "set (literals (clean c)) = set (literals (clean d))" by simp
  then show "eq_clause c d" by (simp add: eq_clause_def)
qed

section \<open>Facts about resolve\<close>

lemma resolve_body_eq:
  "resolve_body c1 c2 l1 l2 (rs, e) =
     (if is_opposite l1 l2 \<and> \<not> is_meaningless (resolvent c1 c2 l1 l2)
      then (set_add (resolvent c1 c2 l1 l2) rs, e \<or> resolvent c1 c2 l1 l2 = empty_clause)
      else (rs, e))"
  by (auto simp: resolve_body_def resolvent_def Let_def is_empty_iff)

lemma inner_fold:
  "fold (resolve_body c1 c2 l1) ys (rs, e) = (rs', e') \<Longrightarrow>
     set rs' = set rs \<union> {r. \<exists>l2 \<in> set ys. is_opposite l1 l2 \<and> r = resolvent c1 c2 l1 l2 \<and> \<not> is_meaningless r} \<and>
     distinct rs' = distinct rs \<and>
     e' = (e \<or> (\<exists>l2 \<in> set ys. is_opposite l1 l2 \<and> resolvent c1 c2 l1 l2 = empty_clause))"
proof (induction ys arbitrary: rs e)
  case Nil
  then show ?case by simp
next
  case (Cons y ys)
  obtain rs1 e1 where st: "resolve_body c1 c2 l1 y (rs, e) = (rs1, e1)"
    by (cases "resolve_body c1 c2 l1 y (rs, e)")
  with Cons.prems have "fold (resolve_body c1 c2 l1) ys (rs1, e1) = (rs', e')" by simp
  from Cons.IH [OF this] have IH:
    "set rs' = set rs1 \<union> {r. \<exists>l2 \<in> set ys. is_opposite l1 l2 \<and> r = resolvent c1 c2 l1 l2 \<and> \<not> is_meaningless r}"
    "distinct rs' = distinct rs1"
    "e' = (e1 \<or> (\<exists>l2 \<in> set ys. is_opposite l1 l2 \<and> resolvent c1 c2 l1 l2 = empty_clause))"
    by blast+
  have nm: "\<not> is_meaningless empty_clause" by (simp add: is_meaningless_def empty_clause_def)
  show ?case
  proof (cases "is_opposite l1 y \<and> \<not> is_meaningless (resolvent c1 c2 l1 y)")
    case True
    with st have "rs1 = set_add (resolvent c1 c2 l1 y) rs" "e1 = (e \<or> resolvent c1 c2 l1 y = empty_clause)"
      by (simp_all add: resolve_body_eq)
    with IH True show ?thesis by auto
  next
    case False
    with st have "rs1 = rs" "e1 = e" by (simp_all add: resolve_body_eq)
    with IH False nm show ?thesis by auto
  qed
qed

lemma outer_fold:
  "fold (\<lambda>l1. fold (resolve_body c1 c2 l1) ys) xs (rs, e) = (rs', e') \<Longrightarrow>
     set rs' = set rs \<union> {r. \<exists>l1 \<in> set xs. \<exists>l2 \<in> set ys. is_opposite l1 l2 \<and> r = resolvent c1 c2 l1 l2 \<and> \<not> is_meaningless r} \<and>
     distinct rs' = distinct rs \<and>
     e' = (e \<or> (\<exists>l1 \<in> set xs. \<exists>l2 \<in> set ys. is_opposite l1 l2 \<and> resolvent c1 c2 l1 l2 = empty_clause))"
proof (induction xs arbitrary: rs e)
  case Nil
  then show ?case by simp
next
  case (Cons x xs)
  obtain rs1 e1 where st: "fold (resolve_body c1 c2 x) ys (rs, e) = (rs1, e1)"
    by (cases "fold (resolve_body c1 c2 x) ys (rs, e)")
  with Cons.prems have "fold (\<lambda>l1. fold (resolve_body c1 c2 l1) ys) xs (rs1, e1) = (rs', e')" by simp
  from Cons.IH [OF this] inner_fold [OF st] show ?case by auto
qed

lemma set_resolve:
  "set (fst (resolve c1 c2)) =
     {r. \<exists>l1 \<in> set (literals c1). \<exists>l2 \<in> set (literals c2).
           is_opposite l1 l2 \<and> r = resolvent c1 c2 l1 l2 \<and> \<not> is_meaningless r}"
  using outer_fold [of c1 c2 "literals c2" "literals c1" "[]" False "fst (resolve c1 c2)" "snd (resolve c1 c2)"]
  by (simp add: resolve_def)

lemma distinct_resolve: "distinct (fst (resolve c1 c2))"
  using outer_fold [of c1 c2 "literals c2" "literals c1" "[]" False "fst (resolve c1 c2)" "snd (resolve c1 c2)"]
  by (simp add: resolve_def)

lemma snd_resolve:
  "snd (resolve c1 c2) \<longleftrightarrow>
     (\<exists>l1 \<in> set (literals c1). \<exists>l2 \<in> set (literals c2).
           is_opposite l1 l2 \<and> resolvent c1 c2 l1 l2 = empty_clause)"
  using outer_fold [of c1 c2 "literals c2" "literals c1" "[]" False "fst (resolve c1 c2)" "snd (resolve c1 c2)"]
  by (simp add: resolve_def)

lemma snd_resolve_mem: "snd (resolve c1 c2) \<longleftrightarrow> empty_clause \<in> set (fst (resolve c1 c2))"
proof -
  have nm: "\<not> is_meaningless empty_clause"
    by (simp add: is_meaningless_def empty_clause_def)
  show ?thesis
    unfolding snd_resolve set_resolve mem_Collect_eq using nm by metis
qed

section \<open>Parsing\<close>

text \<open>
  The source indexes strings without a check, so the one exception that parsing can
  raise is Python's \<^verbatim>\<open>IndexError\<close>; the source defines no exception class of its own.
\<close>

datatype error = IndexError

text \<open>
  \<^verbatim>\<open>str.strip()\<close> removes the whitespace characters at both ends. Among the code
  points below 256 these are 9 to 13, 28 to 32, 133 and 160.
\<close>

definition is_space :: "char \<Rightarrow> bool" where
  "is_space c = ((of_char c :: nat) \<in> {9, 10, 11, 12, 13, 28, 29, 30, 31, 32, 133, 160})"

definition strip :: "string \<Rightarrow> string" where
  "strip s = rev (dropWhile is_space (rev (dropWhile is_space s)))"

text \<open>
  \<^verbatim>\<open>s.split('OR')\<close> cuts the string at every occurrence of \<^verbatim>\<open>OR\<close>, found from left to
  right; \<open>cur\<close> is the piece read so far. The result has one piece more than there are
  occurrences, and a piece may be empty.
\<close>

fun split_OR_aux :: "string \<Rightarrow> string \<Rightarrow> string list" where
  "split_OR_aux cur (c # d # rest) =
     (if c = CHR ''O'' \<and> d = CHR ''R'' then cur # split_OR_aux [] rest
      else split_OR_aux (cur @ [c]) (d # rest))"
| "split_OR_aux cur [c] = [cur @ [c]]"
| "split_OR_aux cur [] = [cur]"

definition split_OR :: "string \<Rightarrow> string list" where
  "split_OR s = split_OR_aux [] s"

text \<open>
  \<^verbatim>\<open>Literal.parse_literal\<close>: \<^verbatim>\<open>string_literal[0]\<close> raises on the empty string and
  \<^verbatim>\<open>string_literal[1]\<close> raises on a string of length one. The symbol is the one
  character read, as a string.
\<close>

definition parse_literal :: "string \<Rightarrow> error + literal" where
  "parse_literal string_literal =
     (case strip string_literal of
        [] \<Rightarrow> Inl IndexError
      | c # r \<Rightarrow>
          if c = CHR ''-'' then
            (case r of
               [] \<Rightarrow> Inl IndexError
             | d # _ \<Rightarrow> Inr \<lparr>symbol = [d], negation = True\<rparr>)
          else Inr \<lparr>symbol = [c], negation = False\<rparr>)"

text \<open>
  \<^verbatim>\<open>Clause.parse_clause\<close>: the loop over the pieces stops at the first literal that
  fails to parse, and the exception leaves the function.
\<close>

fun parse_literals :: "clause \<Rightarrow> string list \<Rightarrow> error + clause" where
  "parse_literals new_clause [] = Inr new_clause"
| "parse_literals new_clause (string_literal # rest) =
     (case parse_literal string_literal of
        Inl e \<Rightarrow> Inl e
      | Inr l \<Rightarrow> parse_literals (add_literal new_clause l) rest)"

definition parse_clause :: "string \<Rightarrow> error + clause" where
  "parse_clause string_clause =
     (case parse_literals empty_clause (split_OR (strip string_clause)) of
        Inl e \<Rightarrow> Inl e
      | Inr new_clause \<Rightarrow> Inr (clean new_clause))"

text \<open>\<^verbatim>\<open>Literal.__repr__\<close> and \<^verbatim>\<open>Clause.__repr__\<close>, with \<^verbatim>\<open>' OR '.join\<close>.\<close>

definition repr_literal :: "literal \<Rightarrow> string" where
  "repr_literal self = (if negation self then CHR ''-'' # symbol self else symbol self)"

fun join_OR :: "string list \<Rightarrow> string" where
  "join_OR [] = []"
| "join_OR [s] = s"
| "join_OR (s # t # ts) = s @ '' OR '' @ join_OR (t # ts)"

definition repr_clause :: "clause \<Rightarrow> string" where
  "repr_clause self =
     (if literals self \<noteq> [] then join_OR (map repr_literal (literals self)) else ''{}'')"

text \<open>
  The literals whose \<^verbatim>\<open>__repr__\<close> is a token of the input format, an optional \<^verbatim>\<open>-\<close>
  and one symbol character: the symbol is one character that is not whitespace, and it is
  not \<^verbatim>\<open>-\<close> itself unless the literal is negated.
\<close>

definition one_symbol :: "literal \<Rightarrow> bool" where
  "one_symbol l =
     (case symbol l of
        [c] \<Rightarrow> \<not> is_space c \<and> (c = CHR ''-'' \<longrightarrow> negation l)
      | _ \<Rightarrow> False)"

section \<open>The knowledge base\<close>

text \<open>A \<^verbatim>\<open>KnowledgeBase\<close> object has the one attribute \<^verbatim>\<open>clauses\<close>, a Python list.\<close>

record knowledge_base =
  clauses :: "clause list"

definition add_clause :: "knowledge_base \<Rightarrow> clause \<Rightarrow> knowledge_base" where
  "add_clause self c = self\<lparr>clauses := clauses self @ [c]\<rparr>"

text \<open>
  \<^verbatim>\<open>KnowledgeBase.build_knowledge_base\<close> appends to \<^verbatim>\<open>self.clauses\<close> as it goes. When a
  parse raises, the clauses appended before stay in the object: the functions return the
  state of the object together with the exception, if there was one. \<open>add_alpha\<close> is
  the first loop, \<open>add_support\<close> the second.
\<close>

fun add_alpha :: "knowledge_base \<Rightarrow> string list \<Rightarrow> knowledge_base \<times> error option" where
  "add_alpha self [] = (self, None)"
| "add_alpha self (alpha_literal # rest) =
     (case parse_clause alpha_literal of
        Inl e \<Rightarrow> (self, Some e)
      | Inr c \<Rightarrow> add_alpha (add_clause self (negate_literals c)) rest)"

fun add_support :: "knowledge_base \<Rightarrow> string list \<Rightarrow> knowledge_base \<times> error option" where
  "add_support self [] = (self, None)"
| "add_support self (clause_str # rest) =
     (case parse_clause clause_str of
        Inl e \<Rightarrow> (self, Some e)
      | Inr c \<Rightarrow> add_support (add_clause self (clean c)) rest)"

definition build_knowledge_base ::
  "knowledge_base \<Rightarrow> string \<Rightarrow> string list \<Rightarrow> knowledge_base \<times> error option" where
  "build_knowledge_base self alpha_string clause_strings =
     (case add_alpha self (split_OR (strip alpha_string)) of
        (self1, Some e) \<Rightarrow> (self1, Some e)
      | (self1, None) \<Rightarrow> add_support self1 clause_strings)"

section \<open>Saturation\<close>

text \<open>
  \<^verbatim>\<open>itertools.combinations(input_clauses, 2)\<close>: every pair of two positions of the
  iteration, the earlier first.
\<close>

fun combinations :: "'a list \<Rightarrow> ('a \<times> 'a) list" where
  "combinations [] = []"
| "combinations (x # xs) = map (Pair x) xs @ combinations xs"

text \<open>
  One round of \<^verbatim>\<open>pl_resolution\<close>: \<open>scan_pair\<close> is the body of the loop over the pairs,
  \<open>scan\<close> the loop, started with an empty \<^verbatim>\<open>new\<close> and the flag as it stands.
\<close>

definition scan_pair :: "clause \<times> clause \<Rightarrow> clause list \<times> bool \<Rightarrow> clause list \<times> bool" where
  "scan_pair p st =
     (case p of (clause1, clause2) \<Rightarrow>
      case st of (new, is_unsatisfiable) \<Rightarrow>
      case resolve clause1 clause2 of (resolvents, is_empty_flag) \<Rightarrow>
        (set_update new resolvents, is_unsatisfiable \<or> is_empty_flag))"

definition scan :: "clause list \<Rightarrow> bool \<Rightarrow> clause list \<times> bool" where
  "scan input_clauses is_unsatisfiable =
     fold scan_pair (combinations input_clauses) ([], is_unsatisfiable)"

text \<open>
  The measure of the loop: the clauses without repeated literals over the literals of the
  working set that are not yet in the working set.
\<close>

definition lits_of :: "clause list \<Rightarrow> literal set" where
  "lits_of cs = (\<Union>c \<in> set cs. set (literals c))"

definition universe :: "literal set \<Rightarrow> clause set" where
  "universe L = {c. set (literals c) \<subseteq> L \<and> distinct (literals c)}"

definition missing :: "clause list \<Rightarrow> nat" where
  "missing cs = card (universe (lits_of cs) - set cs)"

section \<open>Termination of the saturation loop\<close>

lemma literals_resolvent:
  "literals (resolvent c1 c2 l1 l2) =
     sort_key lit_key (remdups (filter (\<lambda>x. x \<noteq> l1) (literals c1) @ filter (\<lambda>x. x \<noteq> l2) (literals c2)))"
  by (simp add: resolvent_def merge_def clone_without_literal_filter)

lemma resolvent_subset:
  "set (literals (resolvent c1 c2 l1 l2)) \<subseteq> set (literals c1) \<union> set (literals c2)"
  by (auto simp: literals_resolvent)

lemma resolvent_distinct: "distinct (literals (resolvent c1 c2 l1 l2))"
  by (simp add: literals_resolvent)

lemma set_combinations: "set (combinations xs) \<subseteq> set xs \<times> set xs"
  by (induction xs) auto

lemma scan_fold:
  "fold scan_pair ps (new, u) = (new', u') \<Longrightarrow>
     set new' = set new \<union> (\<Union>p \<in> set ps. set (fst (resolve (fst p) (snd p)))) \<and>
     distinct new' = distinct new \<and>
     u' = (u \<or> (\<exists>p \<in> set ps. snd (resolve (fst p) (snd p))))"
proof (induction ps arbitrary: new u)
  case Nil
  then show ?case by simp
next
  case (Cons p ps)
  obtain n1 u1 where st: "scan_pair p (new, u) = (n1, u1)"
    by (cases "scan_pair p (new, u)")
  then have n1: "n1 = set_update new (fst (resolve (fst p) (snd p)))"
    and u1: "u1 = (u \<or> snd (resolve (fst p) (snd p)))"
    by (auto simp: scan_pair_def split: prod.splits)
  from Cons.prems st have "fold scan_pair ps (n1, u1) = (new', u')" by simp
  from Cons.IH [OF this] show ?case unfolding n1 u1 by auto
qed

lemma set_scan:
  "set (fst (scan cs u)) = (\<Union>p \<in> set (combinations cs). set (fst (resolve (fst p) (snd p))))"
  using scan_fold [of "combinations cs" "[]" u "fst (scan cs u)" "snd (scan cs u)"]
  by (simp add: scan_def)

lemma distinct_scan: "distinct (fst (scan cs u))"
  using scan_fold [of "combinations cs" "[]" u "fst (scan cs u)" "snd (scan cs u)"]
  by (simp add: scan_def)

lemma snd_scan:
  "snd (scan cs u) = (u \<or> (\<exists>p \<in> set (combinations cs). snd (resolve (fst p) (snd p))))"
  using scan_fold [of "combinations cs" "[]" u "fst (scan cs u)" "snd (scan cs u)"]
  by (simp add: scan_def)

lemma scan_in_universe: "set (fst (scan cs u)) \<subseteq> universe (lits_of cs)"
proof
  fix r assume "r \<in> set (fst (scan cs u))"
  then obtain c1 c2 where p: "(c1, c2) \<in> set (combinations cs)" and r: "r \<in> set (fst (resolve c1 c2))"
    unfolding set_scan by auto
  from p set_combinations have c: "c1 \<in> set cs" "c2 \<in> set cs" by auto
  from r obtain l1 l2 where "r = resolvent c1 c2 l1 l2" unfolding set_resolve by blast
  with c resolvent_subset [of c1 c2 l1 l2] resolvent_distinct [of c1 c2 l1 l2]
  show "r \<in> universe (lits_of cs)"
    by (auto simp: universe_def lits_of_def)
qed

lemma finite_lits_of: "finite (lits_of cs)"
  by (simp add: lits_of_def)

lemma finite_universe: "finite L \<Longrightarrow> finite (universe L)"
proof -
  assume "finite L"
  then have "finite {xs. set xs \<subseteq> L \<and> distinct xs}" by (rule finite_subset_distinct)
  then have "finite ((\<lambda>xs. \<lparr>literals = xs\<rparr>) ` {xs. set xs \<subseteq> L \<and> distinct xs})" by simp
  moreover have "universe L \<subseteq> (\<lambda>xs. \<lparr>literals = xs\<rparr>) ` {xs. set xs \<subseteq> L \<and> distinct xs}"
  proof
    fix c :: clause assume "c \<in> universe L"
    then have "literals c \<in> {xs. set xs \<subseteq> L \<and> distinct xs}" by (simp add: universe_def)
    moreover have "c = \<lparr>literals = literals c\<rparr>" by simp
    ultimately show "c \<in> (\<lambda>xs. \<lparr>literals = xs\<rparr>) ` {xs. set xs \<subseteq> L \<and> distinct xs}"
      by (metis (no_types, lifting) image_eqI)
  qed
  ultimately show ?thesis by (rule rev_finite_subset)
qed

lemma lits_of_update:
  "set new \<subseteq> universe (lits_of cs) \<Longrightarrow> lits_of (set_update cs new) = lits_of cs"
  by (auto simp: lits_of_def universe_def)

lemma missing_decreases:
  assumes "set new \<subseteq> universe (lits_of cs)" "set_difference new cs \<noteq> []"
  shows "missing (set_update cs new) < missing cs"
proof -
  let ?U = "universe (lits_of cs)"
  from assms(2) obtain c where c: "c \<in> set new" "c \<notin> set cs"
    by (metis DiffE set_set_difference last_in_set)
  have "?U - set (set_update cs new) \<subset> ?U - set cs"
    using c assms(1) by auto
  moreover have "finite (?U - set cs)"
    by (simp add: finite_universe finite_lits_of)
  ultimately have "card (?U - set (set_update cs new)) < card (?U - set cs)"
    by (rule psubset_card_mono [rotated])
  then show ?thesis by (simp add: missing_def lits_of_update [OF assms(1)])
qed

lemma scan_decreases:
  assumes "(new, u') = scan cs u" "set_difference new cs \<noteq> []"
  shows "missing (set_update cs new) < missing cs"
proof -
  from assms(1) have "new = fst (scan cs u)" by (metis fst_conv)
  then have "set new \<subseteq> universe (lits_of cs)" by (simp add: scan_in_universe)
  then show ?thesis using assms(2) by (rule missing_decreases)
qed

text \<open>
  The loop of \<^verbatim>\<open>pl_resolution\<close>, with its three local variables. It returns at the end
  of the round in which the flag is set or nothing new was found, and goes on with the
  enlarged working set otherwise. It ends because \<open>missing\<close> gets smaller with every
  round that goes on.
\<close>

function pl_loop :: "clause list \<Rightarrow> clause list list \<Rightarrow> bool \<Rightarrow> bool \<times> clause list list" where
  "pl_loop input_clauses output_clauses is_unsatisfiable =
     (case scan input_clauses is_unsatisfiable of (new, is_unsatisfiable') \<Rightarrow>
        let diff_clauses = set_difference new input_clauses;
            output_clauses' = output_clauses @ [diff_clauses];
            input_clauses' = set_update input_clauses new
        in if is_unsatisfiable' then (True, output_clauses')
           else if diff_clauses = [] then (False, output_clauses')
           else pl_loop input_clauses' output_clauses' is_unsatisfiable')"
  by pat_completeness auto
termination
  by (relation "measure (\<lambda>(input_clauses, output_clauses, is_unsatisfiable). missing input_clauses)")
    (simp_all add: scan_decreases)

text \<open>
  \<^verbatim>\<open>KnowledgeBase.pl_resolution\<close> reads \<^verbatim>\<open>self.clauses\<close> once, into a new set, and
  assigns no attribute of \<^verbatim>\<open>self\<close>; it returns the verdict and the list of rounds.
\<close>

definition pl_resolution :: "knowledge_base \<Rightarrow> bool \<times> clause list list" where
  "pl_resolution self = pl_loop (set_of_list (clauses self)) [] False"

declare pl_loop.simps [simp del]

text \<open>
  \<^verbatim>\<open>main\<close> between \<^verbatim>\<open>read_input\<close> and \<^verbatim>\<open>write_output\<close>: a new \<^verbatim>\<open>KnowledgeBase\<close> is
  built from the query and the clause strings and then saturated. Nothing catches an
  exception of the build: it leaves \<^verbatim>\<open>main\<close>, and the object, a local variable of
  \<^verbatim>\<open>main\<close>, is gone with it.
\<close>

definition main_run :: "string \<Rightarrow> string list \<Rightarrow> error + bool \<times> clause list list" where
  "main_run alpha clause_strings =
     (case build_knowledge_base \<lparr>clauses = []\<rparr> alpha clause_strings of
        (kb, Some e) \<Rightarrow> Inl e
      | (kb, None) \<Rightarrow> Inr (pl_resolution kb))"

section \<open>The rounds of the saturation\<close>

text \<open>
  Names for what the rounds of the loop compute, counted from 0. \<open>working ws k\<close> is the
  working set at the start of round \<open>k\<close> when the loop starts from \<open>ws\<close> and every round
  before went on; \<open>round_diff ws k\<close> is the set of new clauses that round \<open>k\<close> appends
  to the output; \<open>round_empty ws k\<close> says that some unordered pair of different clauses
  of the working set of round \<open>k\<close> has the empty clause among its resolvents.
\<close>

fun working :: "clause list \<Rightarrow> nat \<Rightarrow> clause list" where
  "working ws 0 = ws"
| "working ws (Suc k) = working (set_update ws (fst (scan ws False))) k"

definition round_diff :: "clause list \<Rightarrow> nat \<Rightarrow> clause list" where
  "round_diff ws k = set_difference (fst (scan (working ws k) False)) (working ws k)"

definition round_empty :: "clause list \<Rightarrow> nat \<Rightarrow> bool" where
  "round_empty ws k =
     (\<exists>c1 \<in> set (working ws k). \<exists>c2 \<in> set (working ws k).
        c1 \<noteq> c2 \<and> empty_clause \<in> set (fst (resolve c1 c2)))"

lemma is_opposite_sym: "is_opposite a b = is_opposite b a"
  by (auto simp: is_opposite_def)

lemma resolvent_sym: "resolvent c1 c2 l1 l2 = resolvent c2 c1 l2 l1"
proof -
  have "sort_key lit_key (remdups (literals (clone_without_literal c1 l1) @ literals (clone_without_literal c2 l2))) =
        sort_key lit_key (remdups (literals (clone_without_literal c2 l2) @ literals (clone_without_literal c1 l1)))"
    by (rule sort_key_remdups_cong) auto
  then show ?thesis by (simp add: resolvent_def merge_def clean_def)
qed

lemma set_resolve_sym: "set (fst (resolve c1 c2)) = set (fst (resolve c2 c1))"
  unfolding set_resolve
  by (auto simp: is_opposite_sym [of _ _] resolvent_sym [of c1 c2]) (metis is_opposite_sym resolvent_sym)+

lemma combinations_pairs:
  "distinct xs \<Longrightarrow>
     ((a, b) \<in> set (combinations xs) \<or> (b, a) \<in> set (combinations xs)) \<longleftrightarrow>
     (a \<in> set xs \<and> b \<in> set xs \<and> a \<noteq> b)"
proof (induction xs)
  case Nil
  then show ?case by simp
next
  case (Cons x xs)
  then show ?case using set_combinations [of xs] by auto
qed

lemma snd_scan_pairs:
  assumes "distinct ws"
  shows "snd (scan ws False) \<longleftrightarrow>
     (\<exists>c1 \<in> set ws. \<exists>c2 \<in> set ws. c1 \<noteq> c2 \<and> empty_clause \<in> set (fst (resolve c1 c2)))"
proof
  assume "snd (scan ws False)"
  then obtain c1 c2 where p: "(c1, c2) \<in> set (combinations ws)" and "snd (resolve c1 c2)"
    unfolding snd_scan by auto
  then have "empty_clause \<in> set (fst (resolve c1 c2))" by (simp add: snd_resolve_mem)
  moreover from p combinations_pairs [OF assms, of c1 c2]
  have "c1 \<in> set ws" "c2 \<in> set ws" "c1 \<noteq> c2" by auto
  ultimately show "\<exists>c1 \<in> set ws. \<exists>c2 \<in> set ws. c1 \<noteq> c2 \<and> empty_clause \<in> set (fst (resolve c1 c2))"
    by blast
next
  assume "\<exists>c1 \<in> set ws. \<exists>c2 \<in> set ws. c1 \<noteq> c2 \<and> empty_clause \<in> set (fst (resolve c1 c2))"
  then obtain c1 c2 where c: "c1 \<in> set ws" "c2 \<in> set ws" "c1 \<noteq> c2"
    and e: "empty_clause \<in> set (fst (resolve c1 c2))" by blast
  from e have e1: "snd (resolve c1 c2)" by (simp add: snd_resolve_mem)
  from e have e2: "snd (resolve c2 c1)" by (simp add: snd_resolve_mem set_resolve_sym [of c2 c1])
  from c combinations_pairs [OF assms, of c1 c2]
  have "(c1, c2) \<in> set (combinations ws) \<or> (c2, c1) \<in> set (combinations ws)" by simp
  with e1 e2 show "snd (scan ws False)" unfolding snd_scan by force
qed

lemma distinct_working: "distinct ws \<Longrightarrow> distinct (working ws k)"
  by (induction ws k rule: working.induct) simp_all

lemma round_diff_Suc:
  "round_diff ws (Suc k) = round_diff (set_update ws (fst (scan ws False))) k"
  by (simp add: round_diff_def)

lemma round_empty_Suc:
  "round_empty ws (Suc k) = round_empty (set_update ws (fst (scan ws False))) k"
  by (simp add: round_empty_def)

lemma round_empty_0: "distinct ws \<Longrightarrow> round_empty ws 0 = snd (scan ws False)"
  by (simp add: round_empty_def snd_scan_pairs)

lemma pl_loop_unfold:
  "pl_loop ws out u =
     (if snd (scan ws u) then (True, out @ [set_difference (fst (scan ws u)) ws])
      else if set_difference (fst (scan ws u)) ws = []
        then (False, out @ [set_difference (fst (scan ws u)) ws])
      else pl_loop (set_update ws (fst (scan ws u)))
             (out @ [set_difference (fst (scan ws u)) ws]) (snd (scan ws u)))"
  by (subst pl_loop.simps) (simp add: case_prod_beta Let_def)

lemma pl_loop_rounds:
  assumes "pl_loop ws out u = (b, outs)" "\<not> u" "distinct ws"
  shows "\<exists>n. outs = out @ map (round_diff ws) [0..<Suc n] \<and>
           (\<forall>k<n. \<not> round_empty ws k \<and> round_diff ws k \<noteq> []) \<and>
           b = round_empty ws n \<and> (\<not> b \<longrightarrow> round_diff ws n = [])"
  using assms
proof (induction ws out u arbitrary: b outs rule: pl_loop.induct)
  case (1 ws out u)
  let ?new = "fst (scan ws u)" and ?e = "snd (scan ws u)"
  let ?diff = "set_difference ?new ws"
  let ?ws' = "set_update ws ?new"
  have u: "u = False" using "1.prems" by simp
  have pair: "(?new, ?e) = scan ws u" by simp
  note IH = "1.IH" [OF pair refl refl refl]
  have e0: "round_empty ws 0 = ?e" using "1.prems" by (simp add: round_empty_0)
  have d0: "round_diff ws 0 = ?diff" by (simp add: round_diff_def u)
  have dS: "round_diff ws (Suc k) = round_diff ?ws' k" for k
    by (simp add: round_diff_Suc u)
  have eS: "round_empty ws (Suc k) = round_empty ?ws' k" for k
    by (simp add: round_empty_Suc u)
  show ?case
  proof (cases "?e \<or> ?diff = []")
    case True
    with "1.prems"(1) have "b = ?e" "outs = out @ [?diff]"
      by (auto simp: pl_loop_unfold [of ws out u] split: if_splits)
    with True e0 d0 have "outs = out @ map (round_diff ws) [0..<Suc 0] \<and>
           (\<forall>k<0. \<not> round_empty ws k \<and> round_diff ws k \<noteq> []) \<and>
           b = round_empty ws 0 \<and> (\<not> b \<longrightarrow> round_diff ws 0 = [])"
      by auto
    then show ?thesis by blast
  next
    case False
    with "1.prems"(1) have rec: "pl_loop ?ws' (out @ [?diff]) ?e = (b, outs)"
      by (simp add: pl_loop_unfold [of ws out u])
    have "distinct ?ws'" using "1.prems" by simp
    with IH [OF _ _ rec] False
    obtain n where n: "outs = (out @ [?diff]) @ map (round_diff ?ws') [0..<Suc n]"
      "\<forall>k<n. \<not> round_empty ?ws' k \<and> round_diff ?ws' k \<noteq> []"
      "b = round_empty ?ws' n" "\<not> b \<longrightarrow> round_diff ?ws' n = []"
      by auto
    have "map (round_diff ws) [0..<Suc (Suc n)] = ?diff # map (round_diff ?ws') [0..<Suc n]"
      unfolding map_upt_Suc [of "round_diff ws" "Suc n"] by (simp add: d0 dS)
    with n(1) have "outs = out @ map (round_diff ws) [0..<Suc (Suc n)]" by simp
    moreover have "\<forall>k<Suc n. \<not> round_empty ws k \<and> round_diff ws k \<noteq> []"
    proof (intro allI impI)
      fix k assume "k < Suc n"
      show "\<not> round_empty ws k \<and> round_diff ws k \<noteq> []"
      proof (cases k)
        case 0
        with False e0 d0 show ?thesis by simp
      next
        case (Suc j)
        with \<open>k < Suc n\<close> n(2) show ?thesis by (simp add: eS dS)
      qed
    qed
    moreover have "b = round_empty ws (Suc n)" using n(3) by (simp add: eS)
    moreover have "\<not> b \<longrightarrow> round_diff ws (Suc n) = []" using n(4) by (simp add: dS)
    ultimately show ?thesis by blast
  qed
qed


text \<open>
  The number of rounds is bounded by the measure of the loop: at most one round more than
  there are clauses missing from the first working set.
\<close>

lemma pl_loop_length:
  "pl_loop ws out u = (b, outs) \<Longrightarrow> length outs \<le> length out + Suc (missing ws)"
proof (induction ws out u arbitrary: b outs rule: pl_loop.induct)
  case (1 ws out u)
  let ?new = "fst (scan ws u)" and ?e = "snd (scan ws u)"
  let ?diff = "set_difference ?new ws"
  have pair: "(?new, ?e) = scan ws u" by simp
  show ?case
  proof (cases "?e \<or> ?diff = []")
    case True
    with "1.prems" have "outs = out @ [?diff]"
      by (auto simp: pl_loop_unfold [of ws out u] split: if_splits)
    then show ?thesis by simp
  next
    case False
    with "1.prems" have "pl_loop (set_update ws ?new) (out @ [?diff]) ?e = (b, outs)"
      by (simp add: pl_loop_unfold [of ws out u])
    from "1.IH" [OF pair refl refl refl _ _ this] False
    have "length outs \<le> length (out @ [?diff]) + Suc (missing (set_update ws ?new))" by simp
    moreover have "missing (set_update ws ?new) < missing ws"
      using False scan_decreases [OF pair] by simp
    ultimately show ?thesis by simp
  qed
qed

lemma pl_resolution_rounds_bound:
  "length (snd (pl_resolution kb)) \<le> Suc (missing (set_of_list (clauses kb)))"
  using pl_loop_length [of "set_of_list (clauses kb)" "[]" False
      "fst (pl_resolution kb)" "snd (pl_resolution kb)"]
  by (simp add: pl_resolution_def)

text \<open>
  A sharper count. Every clause that a round finds is cleaned, so it is determined by its
  set of literals; and a round that goes on has not found the empty clause. \<open>fresh L cs\<close>
  counts the cleaned clauses over the literals \<open>L\<close>, the empty clause apart, that are not
  in \<open>cs\<close>.
\<close>

definition clean_universe :: "literal set \<Rightarrow> clause set" where
  "clean_universe L = {c. set (literals c) \<subseteq> L \<and> clean c = c}"

definition fresh :: "literal set \<Rightarrow> clause list \<Rightarrow> nat" where
  "fresh L cs = card (clean_universe L - {empty_clause} - set cs)"

lemma clause_eqI: "literals c = literals d \<Longrightarrow> c = (d :: clause)"
  by (cases c; cases d) simp

lemma clean_fixed_eq:
  assumes "clean c = c" "clean d = d" "set (literals c) = set (literals d)"
  shows "c = d"
proof -
  have "literals (clean c) = literals (clean d)"
    using sort_key_remdups_cong [OF assms(3)] by simp
  with assms(1,2) show ?thesis by (simp add: clause_eqI)
qed

lemma clean_universe_subset: "clean_universe L \<subseteq> universe L"
proof
  fix c assume "c \<in> clean_universe L"
  then have "set (literals c) \<subseteq> L" "clean c = c" by (simp_all add: clean_universe_def)
  moreover from this(2) have "distinct (literals c)" by (metis clean_distinct)
  ultimately show "c \<in> universe L" by (simp add: universe_def)
qed

lemma finite_clean_universe: "finite L \<Longrightarrow> finite (clean_universe L)"
  using clean_universe_subset finite_universe by (rule finite_subset)

lemma card_clean_universe:
  assumes "finite L"
  shows "card (clean_universe L) \<le> 2 ^ card L"
proof -
  have "inj_on (\<lambda>c. set (literals c)) (clean_universe L)"
    by (rule inj_onI) (simp add: clean_universe_def clean_fixed_eq)
  moreover have "(\<lambda>c. set (literals c)) ` clean_universe L \<subseteq> Pow L"
    by (auto simp: clean_universe_def)
  moreover have "finite (Pow L)" using assms by simp
  ultimately have "card (clean_universe L) \<le> card (Pow L)" by (rule card_inj_on_le)
  then show ?thesis by (simp add: card_Pow [OF assms])
qed

lemma empty_in_clean_universe: "empty_clause \<in> clean_universe L"
  by (simp add: clean_universe_def empty_clause_def clean_def)

lemma fresh_bound:
  assumes "finite L"
  shows "Suc (fresh L cs) \<le> 2 ^ card L"
proof -
  have "card (clean_universe L - {empty_clause} - set cs) \<le> card (clean_universe L - {empty_clause})"
    using assms by (intro card_mono) (simp_all add: finite_clean_universe Diff_subset)
  also have "\<dots> = card (clean_universe L) - 1"
    using empty_in_clean_universe [of L] by simp
  finally have "fresh L cs \<le> card (clean_universe L) - 1" by (simp add: fresh_def)
  moreover have "0 < card (clean_universe L)"
    using empty_in_clean_universe [of L] finite_clean_universe [OF assms] by (auto simp: card_gt_0_iff)
  ultimately have "Suc (fresh L cs) \<le> card (clean_universe L)" by simp
  with card_clean_universe [OF assms] show ?thesis by simp
qed

lemma resolvent_clean: "clean (resolvent c1 c2 l1 l2) = resolvent c1 c2 l1 l2"
  by (simp add: resolvent_def merge_def clean_idem)

lemma scan_in_clean_universe: "set (fst (scan cs u)) \<subseteq> clean_universe (lits_of cs)"
proof
  fix r assume "r \<in> set (fst (scan cs u))"
  then obtain c1 c2 where p: "(c1, c2) \<in> set (combinations cs)" and r: "r \<in> set (fst (resolve c1 c2))"
    unfolding set_scan by auto
  from p set_combinations have c: "c1 \<in> set cs" "c2 \<in> set cs" by auto
  from r obtain l1 l2 where "r = resolvent c1 c2 l1 l2" unfolding set_resolve by blast
  with c resolvent_subset [of c1 c2 l1 l2] resolvent_clean [of c1 c2 l1 l2]
  show "r \<in> clean_universe (lits_of cs)"
    by (auto simp: clean_universe_def lits_of_def)
qed

lemma clean_universe_mono: "L \<subseteq> M \<Longrightarrow> clean_universe L \<subseteq> clean_universe M"
  by (auto simp: clean_universe_def)

lemma empty_not_in_scan:
  assumes "\<not> snd (scan cs u)"
  shows "empty_clause \<notin> set (fst (scan cs u))"
proof
  assume "empty_clause \<in> set (fst (scan cs u))"
  then obtain p where "p \<in> set (combinations cs)" "empty_clause \<in> set (fst (resolve (fst p) (snd p)))"
    unfolding set_scan by auto
  then have "snd (scan cs u)" unfolding snd_scan using snd_resolve_mem by blast
  with assms show False by simp
qed

lemma lits_of_update_subset:
  assumes "lits_of cs \<subseteq> L"
  shows "lits_of (set_update cs (fst (scan cs u))) \<subseteq> L"
  using assms scan_in_universe [of cs u] by (simp add: lits_of_update)

lemma fresh_decreases:
  assumes "finite L" "lits_of cs \<subseteq> L" "\<not> snd (scan cs u)"
    "set_difference (fst (scan cs u)) cs \<noteq> []"
  shows "fresh L (set_update cs (fst (scan cs u))) < fresh L cs"
proof -
  let ?new = "fst (scan cs u)"
  let ?U = "clean_universe L - {empty_clause}"
  from assms(4) obtain c where c: "c \<in> set ?new" "c \<notin> set cs"
    by (metis DiffE set_set_difference last_in_set)
  have "c \<in> clean_universe L"
    using c(1) scan_in_clean_universe [of cs u] clean_universe_mono [OF assms(2)] by blast
  moreover have "c \<noteq> empty_clause" using c(1) empty_not_in_scan [OF assms(3)] by auto
  ultimately have "c \<in> ?U - set cs" using c(2) by simp
  moreover have "c \<notin> ?U - set (set_update cs ?new)" using c(1) by simp
  moreover have "?U - set (set_update cs ?new) \<subseteq> ?U - set cs" by auto
  ultimately have "?U - set (set_update cs ?new) \<subset> ?U - set cs" by blast
  moreover have "finite (?U - set cs)" using assms(1) by (simp add: finite_clean_universe)
  ultimately show ?thesis unfolding fresh_def by (rule psubset_card_mono [rotated])
qed

lemma pl_loop_length_fresh:
  assumes "pl_loop ws out u = (b, outs)" "finite L" "lits_of ws \<subseteq> L"
  shows "length outs \<le> length out + Suc (fresh L ws)"
  using assms
proof (induction ws out u arbitrary: b outs rule: pl_loop.induct)
  case (1 ws out u)
  let ?new = "fst (scan ws u)" and ?e = "snd (scan ws u)"
  let ?diff = "set_difference ?new ws"
  have pair: "(?new, ?e) = scan ws u" by simp
  show ?case
  proof (cases "?e \<or> ?diff = []")
    case True
    with "1.prems"(1) have "outs = out @ [?diff]"
      by (auto simp: pl_loop_unfold [of ws out u] split: if_splits)
    then show ?thesis by simp
  next
    case False
    with "1.prems"(1) have "pl_loop (set_update ws ?new) (out @ [?diff]) ?e = (b, outs)"
      by (simp add: pl_loop_unfold [of ws out u])
    moreover have "lits_of (set_update ws ?new) \<subseteq> L"
      using "1.prems"(3) by (rule lits_of_update_subset)
    ultimately have "length outs \<le> length (out @ [?diff]) + Suc (fresh L (set_update ws ?new))"
      using "1.IH" [OF pair refl refl refl] False "1.prems"(2) by simp
    moreover have "fresh L (set_update ws ?new) < fresh L ws"
      using False "1.prems"(2,3) by (intro fresh_decreases) simp_all
    ultimately show ?thesis by simp
  qed
qed

text \<open>
  Counted by symbols instead of literals: over \<open>n\<close> symbols there are at most \<open>2 * n\<close>
  literals, so at most \<open>2 ^ (2 * n)\<close> rounds.
\<close>

lemma literals_over_symbols:
  assumes "finite Sy"
  shows "finite {l :: literal. symbol l \<in> Sy}" "card {l :: literal. symbol l \<in> Sy} \<le> 2 * card Sy"
proof -
  let ?f = "\<lambda>p. \<lparr>symbol = fst p, negation = snd p\<rparr>"
  have eq: "{l :: literal. symbol l \<in> Sy} = ?f ` (Sy \<times> (UNIV :: bool set))"
  proof
    show "{l :: literal. symbol l \<in> Sy} \<subseteq> ?f ` (Sy \<times> UNIV)"
    proof
      fix l :: literal assume "l \<in> {l. symbol l \<in> Sy}"
      then have "(symbol l, negation l) \<in> Sy \<times> UNIV" by simp
      moreover have "l = ?f (symbol l, negation l)" by simp
      ultimately show "l \<in> ?f ` (Sy \<times> UNIV)" by (rule rev_image_eqI)
    qed
    show "?f ` (Sy \<times> UNIV) \<subseteq> {l :: literal. symbol l \<in> Sy}" by auto
  qed
  have fin: "finite (Sy \<times> (UNIV :: bool set))" using assms by simp
  show "finite {l :: literal. symbol l \<in> Sy}" unfolding eq using fin by (rule finite_imageI)
  have "card (?f ` (Sy \<times> (UNIV :: bool set))) \<le> card (Sy \<times> (UNIV :: bool set))"
    using fin by (rule card_image_le)
  then show "card {l :: literal. symbol l \<in> Sy} \<le> 2 * card Sy"
    unfolding eq by (simp add: card_cartesian_product)
qed

lemma pl_resolution_rounds_symbols:
  assumes "finite Sy" "\<forall>c \<in> set (clauses kb). \<forall>l \<in> set (literals c). symbol l \<in> Sy"
  shows "length (snd (pl_resolution kb)) \<le> 2 ^ (2 * card Sy)"
proof -
  let ?A = "{l :: literal. symbol l \<in> Sy}"
  let ?ws = "set_of_list (clauses kb)"
  have l: "pl_loop ?ws [] False = (fst (pl_resolution kb), snd (pl_resolution kb))"
    by (simp add: pl_resolution_def)
  have "lits_of ?ws \<subseteq> ?A" using assms(2) by (auto simp: lits_of_def)
  from pl_loop_length_fresh [OF l literals_over_symbols(1) [OF assms(1)] this]
    fresh_bound [OF literals_over_symbols(1) [OF assms(1)], of ?ws]
  have "length (snd (pl_resolution kb)) \<le> 2 ^ card ?A" by simp
  also have "\<dots> \<le> 2 ^ (2 * card Sy)"
    using literals_over_symbols(2) [OF assms(1)] by (simp add: power_increasing)
  finally show ?thesis .
qed

text \<open>
  The order in which the model enumerates a set does not matter: knowledge bases with
  the same set of clauses get the same verdict and, round by round, the same sets of new
  clauses. \<open>scan_set\<close> is what a round finds, as a function of the working set alone.
\<close>

definition scan_set :: "clause set \<Rightarrow> clause set" where
  "scan_set S = (\<Union>a \<in> S. \<Union>b \<in> S - {a}. set (fst (resolve a b)))"

lemma set_scan_distinct:
  assumes "distinct ws"
  shows "set (fst (scan ws u)) = scan_set (set ws)"
proof
  show "set (fst (scan ws u)) \<subseteq> scan_set (set ws)"
  proof
    fix r assume "r \<in> set (fst (scan ws u))"
    then obtain a b where p: "(a, b) \<in> set (combinations ws)" and r: "r \<in> set (fst (resolve a b))"
      unfolding set_scan by auto
    from p combinations_pairs [OF assms, of a b] have "a \<in> set ws" "b \<in> set ws" "a \<noteq> b" by auto
    with r show "r \<in> scan_set (set ws)" unfolding scan_set_def by blast
  qed
  show "scan_set (set ws) \<subseteq> set (fst (scan ws u))"
  proof
    fix r assume "r \<in> scan_set (set ws)"
    then obtain a b where ab: "a \<in> set ws" "b \<in> set ws" "a \<noteq> b" and r: "r \<in> set (fst (resolve a b))"
      unfolding scan_set_def by blast
    from r have r': "r \<in> set (fst (resolve b a))" by (simp add: set_resolve_sym [of b a])
    from ab combinations_pairs [OF assms, of a b]
    have "(a, b) \<in> set (combinations ws) \<or> (b, a) \<in> set (combinations ws)" by simp
    with r r' show "r \<in> set (fst (scan ws u))" unfolding set_scan by force
  qed
qed

lemma working_cong:
  "distinct ws \<Longrightarrow> distinct ws' \<Longrightarrow> set ws = set ws' \<Longrightarrow>
     set (working ws k) = set (working ws' k)"
proof (induction k arbitrary: ws ws')
  case 0
  then show ?case by simp
next
  case (Suc k)
  have "set (set_update ws (fst (scan ws False))) = set (set_update ws' (fst (scan ws' False)))"
    using Suc.prems by (simp add: set_scan_distinct)
  moreover have "distinct (set_update ws (fst (scan ws False)))"
    "distinct (set_update ws' (fst (scan ws' False)))"
    using Suc.prems by simp_all
  ultimately show ?case using Suc.IH by simp
qed

lemma rounds_cong:
  assumes "distinct ws" "distinct ws'" "set ws = set ws'"
  shows "round_empty ws k = round_empty ws' k"
    and "set (round_diff ws k) = set (round_diff ws' k)"
proof -
  have w: "set (working ws k) = set (working ws' k)" using assms by (rule working_cong)
  then show "round_empty ws k = round_empty ws' k" by (simp add: round_empty_def)
  have "distinct (working ws k)" "distinct (working ws' k)"
    using assms by (simp_all add: distinct_working)
  with w show "set (round_diff ws k) = set (round_diff ws' k)"
    by (simp add: round_diff_def set_scan_distinct)
qed

lemma pl_resolution_order_independent:
  assumes "set (clauses kb) = set (clauses kb')"
  shows "fst (pl_resolution kb) = fst (pl_resolution kb') \<and>
         map set (snd (pl_resolution kb)) = map set (snd (pl_resolution kb'))"
proof -
  let ?ws = "set_of_list (clauses kb)" and ?ws' = "set_of_list (clauses kb')"
  have d: "distinct ?ws" "distinct ?ws'" "set ?ws = set ?ws'" using assms by simp_all
  note re = rounds_cong(1) [OF d] and rd = rounds_cong(2) [OF d]
  have rn: "round_diff ?ws k = [] \<longleftrightarrow> round_diff ?ws' k = []" for k
    using rd [of k] by (metis set_empty)
  obtain b outs where r: "pl_loop ?ws [] False = (b, outs)" by (cases "pl_loop ?ws [] False")
  obtain b' outs' where r': "pl_loop ?ws' [] False = (b', outs')" by (cases "pl_loop ?ws' [] False")
  from pl_loop_rounds [OF r _ d(1)] obtain n where n:
    "outs = map (round_diff ?ws) [0..<Suc n]"
    "\<forall>k<n. \<not> round_empty ?ws k \<and> round_diff ?ws k \<noteq> []"
    "b = round_empty ?ws n" "\<not> b \<longrightarrow> round_diff ?ws n = []" by auto
  from pl_loop_rounds [OF r' _ d(2)] obtain m where m:
    "outs' = map (round_diff ?ws') [0..<Suc m]"
    "\<forall>k<m. \<not> round_empty ?ws' k \<and> round_diff ?ws' k \<noteq> []"
    "b' = round_empty ?ws' m" "\<not> b' \<longrightarrow> round_diff ?ws' m = []" by auto
  have "\<not> n < m"
  proof
    assume "n < m"
    with m(2) have "\<not> round_empty ?ws' n \<and> round_diff ?ws' n \<noteq> []" by simp
    with n(3,4) re [of n] rn [of n] show False by auto
  qed
  moreover have "\<not> m < n"
  proof
    assume "m < n"
    with n(2) have "\<not> round_empty ?ws m \<and> round_diff ?ws m \<noteq> []" by simp
    with m(3,4) re [of m] rn [of m] show False by auto
  qed
  ultimately have "n = m" by simp
  with n(1,3) m(1,3) re rd have "b = b'" "map set outs = map set outs'" by simp_all
  with r r' show ?thesis by (simp add: pl_resolution_def)
qed

section \<open>Facts about parsing and the build\<close>

lemma is_space_simps [simp]:
  "is_space CHR '' ''" "\<not> is_space CHR ''-''"
  by (simp_all add: is_space_def)

lemma strip_no_space:
  assumes "s \<noteq> []" "\<not> is_space (hd s)" "\<not> is_space (last s)"
  shows "strip s = s"
proof -
  from assms have "dropWhile is_space s = s" by (cases s) auto
  moreover from assms have "dropWhile is_space (rev s) = rev s"
    by (cases "rev s") (auto simp: hd_rev)
  ultimately show ?thesis by (simp add: strip_def)
qed

lemma dropWhile_spaces:
  "\<forall>c \<in> set pre. is_space c \<Longrightarrow> dropWhile is_space (pre @ s) = dropWhile is_space s"
  by (induction pre) auto

lemma strip_padded:
  assumes "\<forall>c \<in> set pre. is_space c" "\<forall>c \<in> set post. is_space c"
    and "s \<noteq> []" "\<not> is_space (hd s)" "\<not> is_space (last s)"
  shows "strip (pre @ s @ post) = s"
proof -
  have "dropWhile is_space (pre @ s @ post) = dropWhile is_space (s @ post)"
    using assms(1) by (rule dropWhile_spaces)
  also have "\<dots> = s @ post" using assms(3,4) by (cases s) auto
  finally have 1: "dropWhile is_space (pre @ s @ post) = s @ post" .
  have "dropWhile is_space (rev post @ rev s) = dropWhile is_space (rev s)"
    using assms(2) by (simp add: dropWhile_spaces)
  also have "\<dots> = rev s" using assms(3,5) by (cases "rev s") (auto simp: hd_rev)
  finally show ?thesis by (simp add: strip_def 1)
qed


lemma error_is_IndexError: "(e :: error) = IndexError"
  by (cases e)

lemma parse_literal_empty: "strip t = [] \<Longrightarrow> parse_literal t = Inl IndexError"
  by (simp add: parse_literal_def)

lemma parse_literals_fail:
  "\<exists>q \<in> set ps. parse_literal q = Inl IndexError \<Longrightarrow> parse_literals c ps = Inl IndexError"
proof (induction ps arbitrary: c)
  case Nil
  then show ?case by simp
next
  case (Cons p ps)
  show ?case
  proof (cases "parse_literal p")
    case (Inl e)
    then show ?thesis by (simp add: error_is_IndexError [of e])
  next
    case (Inr l)
    with Cons.prems have "\<exists>q \<in> set ps. parse_literal q = Inl IndexError" by auto
    with Cons.IH Inr show ?thesis by simp
  qed
qed

lemma parse_clause_fail:
  "\<exists>q \<in> set (split_OR (strip cs)). strip q = [] \<Longrightarrow> parse_clause cs = Inl IndexError"
proof -
  assume "\<exists>q \<in> set (split_OR (strip cs)). strip q = []"
  then have "\<exists>q \<in> set (split_OR (strip cs)). parse_literal q = Inl IndexError"
    using parse_literal_empty by blast
  then show ?thesis by (simp add: parse_clause_def parse_literals_fail)
qed

lemma strip_Nil [simp]: "strip [] = []"
  by (simp add: strip_def)

lemma parse_clause_empty_piece: "strip p = [] \<Longrightarrow> parse_clause p = Inl IndexError"
  by (rule parse_clause_fail) (simp add: split_OR_def)

lemma add_alpha_fail:
  "\<exists>p \<in> set ps. parse_clause p = Inl IndexError \<Longrightarrow> snd (add_alpha kb ps) = Some IndexError"
proof (induction ps arbitrary: kb)
  case Nil
  then show ?case by simp
next
  case (Cons p ps)
  show ?case
  proof (cases "parse_clause p")
    case (Inl e)
    then show ?thesis by (simp add: error_is_IndexError [of e])
  next
    case (Inr c)
    with Cons.prems have "\<exists>q \<in> set ps. parse_clause q = Inl IndexError" by auto
    with Cons.IH Inr show ?thesis by simp
  qed
qed

lemma add_support_fail:
  "\<exists>p \<in> set ps. parse_clause p = Inl IndexError \<Longrightarrow> snd (add_support kb ps) = Some IndexError"
proof (induction ps arbitrary: kb)
  case Nil
  then show ?case by simp
next
  case (Cons p ps)
  show ?case
  proof (cases "parse_clause p")
    case (Inl e)
    then show ?thesis by (simp add: error_is_IndexError [of e])
  next
    case (Inr c)
    with Cons.prems have "\<exists>q \<in> set ps. parse_clause q = Inl IndexError" by auto
    with Cons.IH Inr show ?thesis by simp
  qed
qed

lemma build_fail_alpha:
  assumes "\<exists>p \<in> set (split_OR (strip alpha)). strip p = []"
  shows "snd (build_knowledge_base kb alpha cs) = Some IndexError"
proof -
  from assms have "\<exists>p \<in> set (split_OR (strip alpha)). parse_clause p = Inl IndexError"
    using parse_clause_empty_piece by blast
  then have "snd (add_alpha kb (split_OR (strip alpha))) = Some IndexError"
    by (rule add_alpha_fail)
  then show ?thesis
    by (cases "add_alpha kb (split_OR (strip alpha))") (simp add: build_knowledge_base_def)
qed

lemma build_fail_support:
  assumes "\<exists>s \<in> set cs. \<exists>q \<in> set (split_OR (strip s)). strip q = []"
  shows "snd (build_knowledge_base kb alpha cs) = Some IndexError"
proof -
  from assms have f: "\<exists>s \<in> set cs. parse_clause s = Inl IndexError"
    using parse_clause_fail by blast
  obtain kb1 r where a: "add_alpha kb (split_OR (strip alpha)) = (kb1, r)"
    by (cases "add_alpha kb (split_OR (strip alpha))")
  show ?thesis
  proof (cases r)
    case None
    with a add_support_fail [OF f, of kb1] show ?thesis
      by (simp add: build_knowledge_base_def)
  next
    case (Some e)
    with a show ?thesis
      by (simp add: build_knowledge_base_def error_is_IndexError [of e])
  qed
qed

lemma main_run_fail:
  "snd (build_knowledge_base \<lparr>clauses = []\<rparr> alpha cs) = Some e \<Longrightarrow> main_run alpha cs = Inl e"
  by (cases "build_knowledge_base \<lparr>clauses = []\<rparr> alpha cs") (simp add: main_run_def)

text \<open>
  The state in which a build leaves the object: the first loop appends the negated clause
  of every piece of the query up to the first piece that does not parse, the second loop,
  reached when every piece parsed, the cleaned clause of every clause string up to the
  first one that does not parse. A string parses when \<open>parse_clause\<close> returns a clause
  (\<open>\<not> isl\<close>), and \<open>projr\<close> is that clause.
\<close>

lemma add_alpha_prefix:
  "add_alpha self ps =
     (self\<lparr>clauses := clauses self @
        map (\<lambda>s. negate_literals (projr (parse_clause s)))
          (takeWhile (\<lambda>s. \<not> isl (parse_clause s)) ps)\<rparr>,
      if list_all (\<lambda>s. \<not> isl (parse_clause s)) ps then None else Some IndexError)"
proof (induction ps arbitrary: self)
  case Nil
  then show ?case by simp
next
  case (Cons p ps)
  show ?case
  proof (cases "parse_clause p")
    case (Inl e)
    then show ?thesis by (simp add: error_is_IndexError [of e])
  next
    case (Inr c)
    then show ?thesis by (simp add: Cons.IH add_clause_def)
  qed
qed

lemma add_support_prefix:
  "add_support self ps =
     (self\<lparr>clauses := clauses self @
        map (\<lambda>s. clean (projr (parse_clause s)))
          (takeWhile (\<lambda>s. \<not> isl (parse_clause s)) ps)\<rparr>,
      if list_all (\<lambda>s. \<not> isl (parse_clause s)) ps then None else Some IndexError)"
proof (induction ps arbitrary: self)
  case Nil
  then show ?case by simp
next
  case (Cons p ps)
  show ?case
  proof (cases "parse_clause p")
    case (Inl e)
    then show ?thesis by (simp add: error_is_IndexError [of e])
  next
    case (Inr c)
    then show ?thesis by (simp add: Cons.IH add_clause_def)
  qed
qed

lemma build_knowledge_base_prefix:
  "build_knowledge_base self alpha_string clause_strings =
     (self\<lparr>clauses := clauses self @
        map (\<lambda>s. negate_literals (projr (parse_clause s)))
          (takeWhile (\<lambda>s. \<not> isl (parse_clause s)) (split_OR (strip alpha_string))) @
        (if list_all (\<lambda>s. \<not> isl (parse_clause s)) (split_OR (strip alpha_string))
         then map (\<lambda>s. clean (projr (parse_clause s)))
                (takeWhile (\<lambda>s. \<not> isl (parse_clause s)) clause_strings)
         else [])\<rparr>,
      if list_all (\<lambda>s. \<not> isl (parse_clause s)) (split_OR (strip alpha_string)) \<and>
         list_all (\<lambda>s. \<not> isl (parse_clause s)) clause_strings
      then None else Some IndexError)"
proof (cases "list_all (\<lambda>s. \<not> isl (parse_clause s)) (split_OR (strip alpha_string))")
  case True
  then show ?thesis
    by (simp add: build_knowledge_base_def add_alpha_prefix add_support_prefix)
next
  case False
  then show ?thesis
    by (simp add: build_knowledge_base_def add_alpha_prefix)
qed

lemma one_symbol_cases:
  assumes "one_symbol l"
  obtains c where "\<not> is_space c" "c \<noteq> CHR ''-''" "l = \<lparr>symbol = [c], negation = False\<rparr>"
      "repr_literal l = [c]"
    | c where "\<not> is_space c" "l = \<lparr>symbol = [c], negation = True\<rparr>"
      "repr_literal l = [CHR ''-'', c]"
proof -
  from assms obtain c where c: "symbol l = [c]" "\<not> is_space c" "c = CHR ''-'' \<longrightarrow> negation l"
    by (auto simp: one_symbol_def split: list.splits)
  show thesis
  proof (cases "negation l")
    case True
    with c have "l = \<lparr>symbol = [c], negation = True\<rparr>" "repr_literal l = [CHR ''-'', c]"
      by (cases l; simp add: repr_literal_def)+
    with c(2) that(2) show thesis by blast
  next
    case False
    with c have "l = \<lparr>symbol = [c], negation = False\<rparr>" "repr_literal l = [c]" "c \<noteq> CHR ''-''"
      by (cases l; auto simp add: repr_literal_def)+
    with c(2) that(1) show thesis by blast
  qed
qed

lemma split_OR_aux_space: "split_OR_aux cur (CHR '' '' # rest) = split_OR_aux (cur @ '' '') rest"
  by (cases rest) simp_all

lemma split_OR_aux_token_sep:
  assumes "one_symbol l"
  shows "split_OR_aux cur (repr_literal l @ '' OR '' @ rest) =
           (cur @ repr_literal l @ '' '') # split_OR_aux '' '' rest"
  using assms
  by (cases l rule: one_symbol_cases) (simp_all add: split_OR_aux_space)

lemma split_OR_aux_token:
  assumes "one_symbol l"
  shows "split_OR_aux cur (repr_literal l) = [cur @ repr_literal l]"
  using assms by (cases l rule: one_symbol_cases) simp_all

lemma repr_literal_ends:
  assumes "one_symbol l"
  shows "repr_literal l \<noteq> []" "\<not> is_space (hd (repr_literal l))" "\<not> is_space (last (repr_literal l))"
  using assms by (cases l rule: one_symbol_cases; simp)+

lemma parse_literal_repr:
  assumes "one_symbol l"
  shows "parse_literal (repr_literal l) = Inr l"
proof -
  have "strip (repr_literal l) = repr_literal l"
    using repr_literal_ends [OF assms] by (rule strip_no_space)
  with assms show ?thesis
    by (cases rule: one_symbol_cases) (simp_all add: parse_literal_def)
qed

lemma parse_clause_padded:
  assumes "one_symbol l" "\<forall>c \<in> set pre. is_space c" "\<forall>c \<in> set post. is_space c"
  shows "parse_clause (pre @ repr_literal l @ post) = Inr \<lparr>literals = [l]\<rparr>"
proof -
  have "strip (pre @ repr_literal l @ post) = repr_literal l"
    using assms(2,3) repr_literal_ends [OF assms(1)] by (rule strip_padded)
  then show ?thesis
    by (simp add: parse_clause_def split_OR_def split_OR_aux_token [OF assms(1)]
        parse_literal_repr [OF assms(1)] add_literal_def empty_clause_def clean_def)
qed

lemma add_alpha_join:
  assumes "ls \<noteq> []" "\<forall>l \<in> set ls. one_symbol l" "\<forall>c \<in> set cur. is_space c"
  shows "add_alpha kb (split_OR_aux cur (join_OR (map repr_literal ls))) =
           (kb\<lparr>clauses := clauses kb @ map (\<lambda>l. \<lparr>literals = [negate l]\<rparr>) ls\<rparr>, None)"
  using assms
proof (induction ls arbitrary: kb cur rule: induct_list012)
  case 1
  then show ?case by simp
next
  case (2 l)
  then have l: "one_symbol l" by simp
  have "parse_clause (cur @ repr_literal l @ []) = Inr \<lparr>literals = [l]\<rparr>"
    using l "2.prems"(3) by (intro parse_clause_padded) simp_all
  then show ?case
    by (simp add: split_OR_aux_token [OF l] add_clause_def negate_literals_def)
next
  case (3 l l' ls)
  then have l: "one_symbol l" by simp
  have p: "parse_clause (cur @ repr_literal l @ '' '') = Inr \<lparr>literals = [l]\<rparr>"
    using l "3.prems"(3) by (intro parse_clause_padded) simp_all
  have "add_alpha (add_clause kb (negate_literals \<lparr>literals = [l]\<rparr>))
          (split_OR_aux '' '' (join_OR (map repr_literal (l' # ls)))) =
        (add_clause kb (negate_literals \<lparr>literals = [l]\<rparr>)
           \<lparr>clauses := clauses (add_clause kb (negate_literals \<lparr>literals = [l]\<rparr>)) @
              map (\<lambda>l. \<lparr>literals = [negate l]\<rparr>) (l' # ls)\<rparr>, None)"
    using "3.prems" by (intro "3.IH"(2)) simp_all
  moreover have "split_OR_aux cur (join_OR (map repr_literal (l # l' # ls))) =
      (cur @ repr_literal l @ '' '') # split_OR_aux '' '' (join_OR (map repr_literal (l' # ls)))"
    using split_OR_aux_token_sep [OF l] by (simp only: list.map join_OR.simps)
  ultimately show ?case
    using p by (simp add: add_clause_def negate_literals_def)
qed

lemma hd_join_OR: "ts \<noteq> [] \<Longrightarrow> hd ts \<noteq> [] \<Longrightarrow> hd (join_OR ts) = hd (hd ts)"
  by (induction ts rule: join_OR.induct) simp_all

lemma join_OR_nonempty_last: "ts \<noteq> [] \<Longrightarrow> last ts \<noteq> [] \<Longrightarrow> join_OR ts \<noteq> []"
  by (induction ts rule: join_OR.induct) simp_all

lemma last_join_OR: "ts \<noteq> [] \<Longrightarrow> last ts \<noteq> [] \<Longrightarrow> last (join_OR ts) = last (last ts)"
proof (induction ts rule: join_OR.induct)
  case (3 s t ts)
  then have "join_OR (t # ts) \<noteq> []" by (intro join_OR_nonempty_last) simp_all
  with 3 show ?case by simp
qed simp_all

lemma join_OR_nonempty: "ts \<noteq> [] \<Longrightarrow> hd ts \<noteq> [] \<Longrightarrow> join_OR ts \<noteq> []"
  by (induction ts rule: join_OR.induct) simp_all

lemma strip_join_OR:
  assumes "ls \<noteq> []" "\<forall>l \<in> set ls. one_symbol l"
  shows "strip (join_OR (map repr_literal ls)) = join_OR (map repr_literal ls)"
proof -
  let ?ts = "map repr_literal ls"
  from assms have h: "one_symbol (hd ls)" and t: "one_symbol (last ls)" by simp_all
  have ne: "?ts \<noteq> []" using assms(1) by simp
  have hd: "hd ?ts = repr_literal (hd ls)" using assms(1) by (simp add: hd_map)
  have lst: "last ?ts = repr_literal (last ls)" using assms(1) by (simp add: last_map)
  have "join_OR ?ts \<noteq> []"
    using ne repr_literal_ends(1) [OF h] by (intro join_OR_nonempty) (simp_all add: hd)
  moreover have "\<not> is_space (hd (join_OR ?ts))"
    using ne repr_literal_ends [OF h] by (simp add: hd_join_OR hd)
  moreover have "\<not> is_space (last (join_OR ?ts))"
    using ne repr_literal_ends [OF t] by (simp add: last_join_OR lst)
  ultimately show ?thesis by (rule strip_no_space)
qed

lemma add_support_ok:
  "map parse_clause strs = map Inr cs \<Longrightarrow>
     add_support kb strs = (kb\<lparr>clauses := clauses kb @ map clean cs\<rparr>, None)"
proof (induction strs arbitrary: kb cs)
  case Nil
  then show ?case by simp
next
  case (Cons s strs)
  then obtain c cs' where cs: "cs = c # cs'" "parse_clause s = Inr c"
    "map parse_clause strs = map Inr cs'" by (cases cs) auto
  from Cons.IH [OF cs(3)] cs(1,2) show ?case by (simp add: add_clause_def)
qed

lemma parse_clause_clean: "parse_clause s = Inr c \<Longrightarrow> clean c = c"
  by (auto simp: parse_clause_def clean_idem split: sum.splits)

section \<open>The same operations on a heap of clause objects\<close>

text \<open>
  The functions above compute with clause values. To speak about mutation, the statements
  that \<^verbatim>\<open>resolve\<close> and \<^verbatim>\<open>pl_resolution\<close> execute are modelled once more on a heap: the
  list of the \<^verbatim>\<open>Clause\<close> objects allocated so far, the address of an object being its
  position. \<^verbatim>\<open>Clause()\<close> allocates at the end of the heap; \<^verbatim>\<open>add_literal\<close>,
  \<^verbatim>\<open>clean\<close> and the assignment to \<^verbatim>\<open>new_clause.literals\<close> in \<^verbatim>\<open>merge\<close> overwrite the
  object at an address. A Python set of clauses is a list of addresses, and an object is
  in it when an object of the same contents is. Literals stay values: \<^verbatim>\<open>Literal.negate\<close>
  is the only statement of the source that assigns an attribute of a literal, and neither
  \<^verbatim>\<open>resolve\<close> nor \<^verbatim>\<open>pl_resolution\<close> reaches it.
\<close>

type_synonym addr = nat
type_synonym heap = "clause list"

definition h_new :: "heap \<Rightarrow> addr \<times> heap" where
  "h_new h = (length h, h @ [empty_clause])"

definition h_add_literal :: "heap \<Rightarrow> addr \<Rightarrow> literal \<Rightarrow> heap" where
  "h_add_literal h self l = h[self := add_literal (h ! self) l]"

definition h_clean :: "heap \<Rightarrow> addr \<Rightarrow> heap" where
  "h_clean h self = h[self := clean (h ! self)]"

definition h_clone_without_literal :: "heap \<Rightarrow> addr \<Rightarrow> literal \<Rightarrow> addr \<times> heap" where
  "h_clone_without_literal h self l =
     (case h_new h of (new_clause, h1) \<Rightarrow>
        (new_clause,
         foldl (\<lambda>h' lit. if lit \<noteq> l then h_add_literal h' new_clause lit else h')
           h1 (literals (h1 ! self))))"

definition h_merge :: "heap \<Rightarrow> addr \<Rightarrow> addr \<Rightarrow> addr \<times> heap" where
  "h_merge h clause1 clause2 =
     (case h_new h of (new_clause, h1) \<Rightarrow>
        (new_clause,
         h_clean (h1[new_clause := (h1 ! new_clause)
                    \<lparr>literals := literals (h1 ! clause1) @ literals (h1 ! clause2)\<rparr>])
           new_clause))"

definition h_set_add :: "heap \<Rightarrow> addr \<Rightarrow> addr list \<Rightarrow> addr list" where
  "h_set_add h x xs = (if h ! x \<in> set (map ((!) h) xs) then xs else xs @ [x])"

definition h_set_update :: "heap \<Rightarrow> addr list \<Rightarrow> addr list \<Rightarrow> addr list" where
  "h_set_update h xs ys = fold (h_set_add h) ys xs"

definition h_set_difference :: "heap \<Rightarrow> addr list \<Rightarrow> addr list \<Rightarrow> addr list" where
  "h_set_difference h xs ys = filter (\<lambda>x. h ! x \<notin> set (map ((!) h) ys)) xs"

definition h_set_of_list :: "heap \<Rightarrow> addr list \<Rightarrow> addr list" where
  "h_set_of_list h xs = h_set_update h [] xs"

definition h_resolve_body ::
  "addr \<Rightarrow> addr \<Rightarrow> literal \<Rightarrow> literal \<Rightarrow> addr list \<times> bool \<times> heap \<Rightarrow> addr list \<times> bool \<times> heap" where
  "h_resolve_body clause1 clause2 literal1 literal2 st =
     (case st of (resolvents, is_empty_flag, h) \<Rightarrow>
        if is_opposite literal1 literal2 then
          (case h_clone_without_literal h clause1 literal1 of (p, h1) \<Rightarrow>
           case h_clone_without_literal h1 clause2 literal2 of (q, h2) \<Rightarrow>
           case h_merge h2 p q of (new_clause, h3) \<Rightarrow>
             if is_meaningless (h3 ! new_clause) then (resolvents, is_empty_flag, h3)
             else (h_set_add h3 new_clause resolvents,
                   if is_empty (h3 ! new_clause) then True else is_empty_flag, h3))
        else (resolvents, is_empty_flag, h))"

definition h_resolve :: "heap \<Rightarrow> addr \<Rightarrow> addr \<Rightarrow> addr list \<times> bool \<times> heap" where
  "h_resolve h clause1 clause2 =
     fold (\<lambda>literal1 st.
            fold (h_resolve_body clause1 clause2 literal1) (literals (snd (snd st) ! clause2)) st)
       (literals (h ! clause1)) ([], False, h)"

text \<open>The clause values at a list of addresses.\<close>

definition contents :: "heap \<Rightarrow> addr list \<Rightarrow> clause list" where
  "contents h xs = map ((!) h) xs"

text \<open>
  The relation between a state of the loops on the heap and the state of the loops on
  values: the heap has only grown since the call, the resolvents are new
  objects, and their contents are the resolvents on values.
\<close>

definition resolve_rel :: "heap \<Rightarrow> addr list \<times> bool \<times> heap \<Rightarrow> clause list \<times> bool \<Rightarrow> bool" where
  "resolve_rel h0 st pst =
     (case st of (rs, e, h) \<Rightarrow>
        take (length h0) h = h0 \<and> length h0 \<le> length h \<and>
        (\<forall>r \<in> set rs. length h0 \<le> r \<and> r < length h) \<and>
        contents h rs = fst pst \<and> e = snd pst)"

definition h_scan_pair :: "addr \<times> addr \<Rightarrow> addr list \<times> bool \<times> heap \<Rightarrow> addr list \<times> bool \<times> heap" where
  "h_scan_pair p st =
     (case p of (clause1, clause2) \<Rightarrow>
      case st of (new, is_unsatisfiable, h) \<Rightarrow>
      case h_resolve h clause1 clause2 of (resolvents, is_empty_flag, h') \<Rightarrow>
        (h_set_update h' new resolvents, is_unsatisfiable \<or> is_empty_flag, h'))"

definition h_scan :: "heap \<Rightarrow> addr list \<Rightarrow> bool \<Rightarrow> addr list \<times> bool \<times> heap" where
  "h_scan h input_clauses is_unsatisfiable =
     fold h_scan_pair (combinations input_clauses) ([], is_unsatisfiable, h)"

text \<open>
  The loop of \<^verbatim>\<open>pl_resolution\<close> on the heap. It is defined without a termination
  argument, as a function that may not return; \<open>h_pl_loop_refines\<close> below shows that it
  returns whenever the addresses it starts from are allocated.
\<close>

partial_function (option) h_pl_loop ::
  "heap \<Rightarrow> addr list \<Rightarrow> addr list list \<Rightarrow> bool \<Rightarrow> (bool \<times> addr list list \<times> heap) option" where
  "h_pl_loop h input_clauses output_clauses is_unsatisfiable =
     (case h_scan h input_clauses is_unsatisfiable of (new, is_unsatisfiable', h') \<Rightarrow>
        let diff_clauses = h_set_difference h' new input_clauses;
            output_clauses' = output_clauses @ [diff_clauses];
            input_clauses' = h_set_update h' input_clauses new
        in if is_unsatisfiable' then Some (True, output_clauses', h')
           else if diff_clauses = [] then Some (False, output_clauses', h')
           else h_pl_loop h' input_clauses' output_clauses' is_unsatisfiable')"

text \<open>
  The \<^verbatim>\<open>KnowledgeBase\<close> object holds the addresses of its clauses. \<^verbatim>\<open>pl_resolution\<close>
  returns the object as it leaves it, besides the verdict, the rounds and the heap.
\<close>

record h_knowledge_base =
  h_clauses :: "addr list"

definition h_pl_resolution ::
  "heap \<Rightarrow> h_knowledge_base \<Rightarrow> (bool \<times> addr list list \<times> h_knowledge_base \<times> heap) option" where
  "h_pl_resolution h self =
     (case h_pl_loop h (h_set_of_list h (h_clauses self)) [] False of
        None \<Rightarrow> None
      | Some (entailed, output_clauses, h') \<Rightarrow> Some (entailed, output_clauses, self, h'))"

section \<open>Facts about the heap operations\<close>

lemma foldl_h_add:
  "nc < length h \<Longrightarrow>
   foldl (\<lambda>h' lit. if lit \<noteq> l then h_add_literal h' nc lit else h') h xs =
     h[nc := (h ! nc)\<lparr>literals := literals (h ! nc) @ filter (\<lambda>lit. lit \<noteq> l) xs\<rparr>]"
  by (induction xs arbitrary: h) (simp_all add: h_add_literal_def add_literal_def)

lemma h_clone_without_literal_eq:
  "self < length h \<Longrightarrow>
   h_clone_without_literal h self l = (length h, h @ [clone_without_literal (h ! self) l])"
  by (simp add: h_clone_without_literal_def h_new_def foldl_h_add nth_append
      clone_without_literal_filter empty_clause_def)

lemma h_merge_eq:
  "c1 < length h \<Longrightarrow> c2 < length h \<Longrightarrow>
   h_merge h c1 c2 = (length h, h @ [merge (h ! c1) (h ! c2)])"
  by (simp add: h_merge_def h_new_def h_clean_def nth_append merge_def empty_clause_def clean_def)

lemma contents_append:
  "\<forall>x \<in> set xs. x < length h \<Longrightarrow> contents (h @ ext) xs = contents h xs"
  by (simp add: contents_def nth_append)

lemma h_set_add_contents:
  "contents h (h_set_add h x xs) = set_add (h ! x) (contents h xs)"
  by (simp add: h_set_add_def set_add_def contents_def)

lemma h_set_update_contents:
  "contents h (h_set_update h xs ys) = set_update (contents h xs) (contents h ys)"
  unfolding h_set_update_def set_update_def
proof (induction ys arbitrary: xs)
  case Nil
  then show ?case by (simp add: contents_def)
next
  case (Cons y ys)
  have "contents h (y # ys) = h ! y # contents h ys" by (simp add: contents_def)
  with Cons.IH [of "h_set_add h y xs"] show ?case by (simp add: h_set_add_contents)
qed

lemma h_set_difference_contents:
  "contents h (h_set_difference h xs ys) = set_difference (contents h xs) (contents h ys)"
  by (simp add: h_set_difference_def set_difference_def contents_def filter_map comp_def)

lemma h_set_of_list_contents:
  "contents h (h_set_of_list h xs) = set_of_list (contents h xs)"
  by (simp add: h_set_of_list_def set_of_list_def h_set_update_contents) (simp add: contents_def)

lemma set_h_set_add: "set (h_set_add h x xs) \<subseteq> insert x (set xs)"
  by (auto simp: h_set_add_def)

lemma set_h_set_update: "set (h_set_update h xs ys) \<subseteq> set xs \<union> set ys"
  unfolding h_set_update_def
proof (induction ys arbitrary: xs)
  case Nil
  then show ?case by simp
next
  case (Cons y ys)
  from Cons.IH [of "h_set_add h y xs"] set_h_set_add [of h y xs] show ?case by auto
qed

lemma frame_nth: "take (length h0) h = h0 \<Longrightarrow> a < length h0 \<Longrightarrow> h ! a = h0 ! a"
  by (metis nth_take)

lemma take_append_frame: "take (length h0) h = h0 \<Longrightarrow> length h0 \<le> length h \<Longrightarrow> a < length h0 \<Longrightarrow> h ! a = h0 ! a"
  by (metis nth_take)

lemma h_resolve_body_rel:
  assumes "resolve_rel h0 st pst" "c1 < length h0" "c2 < length h0"
  shows "resolve_rel h0 (h_resolve_body c1 c2 l1 l2 st) (resolve_body (h0 ! c1) (h0 ! c2) l1 l2 pst)"
proof -
  obtain rs e h where st: "st = (rs, e, h)" by (cases st)
  obtain prs pe where pst: "pst = (prs, pe)" by (cases pst)
  from assms(1) have fr: "take (length h0) h = h0" "length h0 \<le> length h"
    and rs: "\<forall>r \<in> set rs. length h0 \<le> r \<and> r < length h"
    and c: "contents h rs = prs" "e = pe"
    by (simp_all add: resolve_rel_def st pst)
  have v: "c1 < length h" "c2 < length h" using assms(2,3) fr(2) by simp_all
  have e1: "h ! c1 = h0 ! c1" and e2: "h ! c2 = h0 ! c2"
    using fr assms(2,3) by (simp_all add: take_append_frame)
  show ?thesis
  proof (cases "is_opposite l1 l2")
    case False
    then show ?thesis using assms(1) by (simp add: h_resolve_body_def resolve_body_def st pst)
  next
    case True
    let ?p = "clone_without_literal (h0 ! c1) l1" and ?q = "clone_without_literal (h0 ! c2) l2"
    let ?n = "merge ?p ?q"
    let ?h3 = "h @ [?p, ?q, ?n]"
    have cl1: "h_clone_without_literal h c1 l1 = (length h, h @ [?p])"
      using v by (simp add: h_clone_without_literal_eq e1)
    have cl2: "h_clone_without_literal (h @ [?p]) c2 l2 = (Suc (length h), h @ [?p, ?q])"
      using v by (simp add: h_clone_without_literal_eq nth_append e2)
    have mg: "h_merge (h @ [?p, ?q]) (length h) (Suc (length h)) = (Suc (Suc (length h)), ?h3)"
      by (simp add: h_merge_eq nth_append)
    have n3: "?h3 ! Suc (Suc (length h)) = ?n" by (simp add: nth_append)
    have fr3: "take (length h0) ?h3 = h0" "length h0 \<le> length ?h3" using fr by simp_all
    have c3: "contents ?h3 rs = prs"
      using rs c(1) contents_append [of rs h "[?p, ?q, ?n]"] by simp
    have rs3: "\<forall>r \<in> set rs. length h0 \<le> r \<and> r < length ?h3" using rs by auto
    show ?thesis
    proof (cases "is_meaningless ?n")
      case m: True
      with True show ?thesis
        using fr3 c3 rs3 c(2)
        by (simp add: h_resolve_body_def resolve_body_def st pst cl1 cl2 mg n3 resolve_rel_def)
    next
      case m: False
      have "contents ?h3 (h_set_add ?h3 (Suc (Suc (length h))) rs) = set_add ?n prs"
        by (simp only: h_set_add_contents n3 c3)
      moreover have "\<forall>r \<in> set (h_set_add ?h3 (Suc (Suc (length h))) rs). length h0 \<le> r \<and> r < length ?h3"
        using rs3 fr(2) set_h_set_add [of ?h3 "Suc (Suc (length h))" rs] by auto
      ultimately show ?thesis
        using True m fr3 c(2)
        by (simp add: h_resolve_body_def resolve_body_def st pst cl1 cl2 mg n3 resolve_rel_def Let_def)
    qed
  qed
qed

lemma inner_fold_rel:
  assumes "resolve_rel h0 st pst" "c1 < length h0" "c2 < length h0"
  shows "resolve_rel h0 (fold (h_resolve_body c1 c2 l1) ys st)
           (fold (resolve_body (h0 ! c1) (h0 ! c2) l1) ys pst)"
  using assms(1)
proof (induction ys arbitrary: st pst)
  case Nil
  then show ?case by simp
next
  case (Cons y ys)
  from h_resolve_body_rel [OF Cons.prems assms(2,3)]
  have "resolve_rel h0 (h_resolve_body c1 c2 l1 y st) (resolve_body (h0 ! c1) (h0 ! c2) l1 y pst)" .
  from Cons.IH [OF this] show ?case by simp
qed

lemma outer_fold_rel:
  assumes "resolve_rel h0 st pst" "c1 < length h0" "c2 < length h0"
  shows "resolve_rel h0
           (fold (\<lambda>l1 st. fold (h_resolve_body c1 c2 l1) (literals (snd (snd st) ! c2)) st) xs st)
           (fold (\<lambda>l1. fold (resolve_body (h0 ! c1) (h0 ! c2) l1) (literals (h0 ! c2))) xs pst)"
  using assms(1)
proof (induction xs arbitrary: st pst)
  case Nil
  then show ?case by simp
next
  case (Cons x xs)
  obtain rs e h where st: "st = (rs, e, h)" by (cases st)
  from Cons.prems have "h ! c2 = h0 ! c2"
    using assms(3) by (simp add: resolve_rel_def st take_append_frame)
  then have "fold (h_resolve_body c1 c2 x) (literals (snd (snd st) ! c2)) st =
      fold (h_resolve_body c1 c2 x) (literals (h0 ! c2)) st" by (simp add: st)
  moreover have "resolve_rel h0 (fold (h_resolve_body c1 c2 x) (literals (h0 ! c2)) st)
      (fold (resolve_body (h0 ! c1) (h0 ! c2) x) (literals (h0 ! c2)) pst)"
    using Cons.prems assms(2,3) by (rule inner_fold_rel)
  ultimately show ?case using Cons.IH by simp
qed

lemma h_resolve_rel:
  assumes "c1 < length h" "c2 < length h"
  shows "resolve_rel h (h_resolve h c1 c2) (resolve (h ! c1) (h ! c2))"
proof -
  have "resolve_rel h ([], False, h) ([], False)" by (simp add: resolve_rel_def contents_def)
  from outer_fold_rel [OF this assms] show ?thesis by (simp add: h_resolve_def resolve_def)
qed


lemma contents_frame:
  "take (length h) h' = h \<Longrightarrow> length h \<le> length h' \<Longrightarrow> \<forall>x \<in> set xs. x < length h \<Longrightarrow>
     contents h' xs = contents h xs"
  by (simp add: contents_def take_append_frame)

lemma frame_trans:
  assumes "take (length h0) h = h0" "length h0 \<le> length h"
    "take (length h) h' = h" "length h \<le> length h'"
  shows "take (length h0) h' = h0"
proof -
  have "take (length h0) h' = take (length h0) (take (length h) h')"
    using assms(2) by (simp add: min_def)
  then show ?thesis using assms(1,3) by simp
qed

lemma h_scan_pair_rel:
  assumes "resolve_rel h0 st pst" "c1 < length h0" "c2 < length h0"
  shows "resolve_rel h0 (h_scan_pair (c1, c2) st) (scan_pair (h0 ! c1, h0 ! c2) pst)"
proof -
  obtain new u h where st: "st = (new, u, h)" by (cases st)
  obtain pnew pu where pst: "pst = (pnew, pu)" by (cases pst)
  from assms(1) have fr: "take (length h0) h = h0" "length h0 \<le> length h"
    and nw: "\<forall>r \<in> set new. length h0 \<le> r \<and> r < length h"
    and c: "contents h new = pnew" "u = pu"
    by (simp_all add: resolve_rel_def st pst)
  have v: "c1 < length h" "c2 < length h" using assms(2,3) fr(2) by simp_all
  have e: "h ! c1 = h0 ! c1" "h ! c2 = h0 ! c2"
    using fr assms(2,3) by (simp_all add: take_append_frame)
  obtain rs ef h' where r: "h_resolve h c1 c2 = (rs, ef, h')" by (cases "h_resolve h c1 c2")
  obtain prs pe where pr: "resolve (h0 ! c1) (h0 ! c2) = (prs, pe)"
    by (cases "resolve (h0 ! c1) (h0 ! c2)")
  from h_resolve_rel [OF v] r pr e
  have fr': "take (length h) h' = h" "length h \<le> length h'"
    and rs: "\<forall>r \<in> set rs. length h \<le> r \<and> r < length h'"
    and c': "contents h' rs = prs" "ef = pe"
    by (simp_all add: resolve_rel_def)
  have "contents h' new = pnew"
    using contents_frame [OF fr', of new] nw c(1) by simp
  then have 1: "contents h' (h_set_update h' new rs) = set_update pnew prs"
    by (simp add: h_set_update_contents c'(1))
  have 2: "\<forall>r \<in> set (h_set_update h' new rs). length h0 \<le> r \<and> r < length h'"
    using set_h_set_update [of h' new rs] nw rs fr(2) fr'(2) by fastforce
  have 3: "take (length h0) h' = h0" using fr fr' by (rule frame_trans)
  show ?thesis
    using 1 2 3 fr(2) fr'(2) c(2) c'(2)
    by (simp add: h_scan_pair_def scan_pair_def st pst r pr resolve_rel_def)
qed

lemma scan_fold_rel:
  assumes "resolve_rel h0 st pst" "\<forall>p \<in> set ps. fst p < length h0 \<and> snd p < length h0"
  shows "resolve_rel h0 (fold h_scan_pair ps st)
           (fold scan_pair (map (\<lambda>p. (h0 ! fst p, h0 ! snd p)) ps) pst)"
  using assms
proof (induction ps arbitrary: st pst)
  case Nil
  then show ?case by simp
next
  case (Cons p ps)
  obtain c1 c2 where p: "p = (c1, c2)" by (cases p)
  with Cons.prems have "c1 < length h0" "c2 < length h0" by simp_all
  from h_scan_pair_rel [OF Cons.prems(1) this]
  have "resolve_rel h0 (h_scan_pair p st) (scan_pair (h0 ! c1, h0 ! c2) pst)" by (simp add: p)
  from Cons.IH [OF this] Cons.prems(2) show ?case by (simp add: p)
qed

lemma combinations_map:
  "combinations (map f xs) = map (\<lambda>p. (f (fst p), f (snd p))) (combinations xs)"
  by (induction xs) (simp_all add: comp_def)

lemma h_scan_rel:
  assumes "\<forall>a \<in> set inp. a < length h"
  shows "resolve_rel h (h_scan h inp u) (scan (contents h inp) u)"
proof -
  have "resolve_rel h ([], u, h) ([], u)" by (simp add: resolve_rel_def contents_def)
  moreover have "\<forall>p \<in> set (combinations inp). fst p < length h \<and> snd p < length h"
    using assms set_combinations [of inp] by auto
  ultimately show ?thesis
    using scan_fold_rel [of h "([], u, h)" "([], u)" "combinations inp"]
    by (simp add: h_scan_def scan_def contents_def combinations_map)
qed

lemma h_pl_loop_refines:
  assumes "\<forall>a \<in> set inp. a < length h" "\<forall>d \<in> set outp. \<forall>a \<in> set d. a < length h"
  shows "\<exists>outs h'. h_pl_loop h inp outp u =
             Some (fst (pl_loop (contents h inp) (map (contents h) outp) u), outs, h') \<and>
           take (length h) h' = h \<and> length h \<le> length h' \<and>
           map (contents h') outs = snd (pl_loop (contents h inp) (map (contents h) outp) u)"
  using assms
proof (induction "contents h inp" "map (contents h) outp" u arbitrary: h inp outp
    rule: pl_loop.induct)
  case (1 u)
  let ?pin = "contents h inp" and ?pout = "map (contents h) outp"
  obtain new u' h1 where sc: "h_scan h inp u = (new, u', h1)" by (cases "h_scan h inp u")
  let ?pnew = "fst (scan ?pin u)" and ?pu = "snd (scan ?pin u)"
  from h_scan_rel [OF "1.prems"(1), of u] sc
  have fr: "take (length h) h1 = h" "length h \<le> length h1"
    and nw: "\<forall>r \<in> set new. r < length h1"
    and c: "contents h1 new = ?pnew" "u' = ?pu"
    by (simp_all add: resolve_rel_def)
  let ?diff = "h_set_difference h1 new inp"
  let ?pdiff = "set_difference ?pnew ?pin"
  let ?in' = "h_set_update h1 inp new"
  have ci: "contents h1 inp = ?pin"
    using contents_frame [OF fr] "1.prems"(1) by simp
  have co: "map (contents h1) outp = ?pout"
    using contents_frame [OF fr] "1.prems"(2) by simp
  have cd: "contents h1 ?diff = ?pdiff"
    by (simp add: h_set_difference_contents c(1) ci)
  have cin: "contents h1 ?in' = set_update ?pin ?pnew"
    by (simp add: h_set_update_contents c(1) ci)
  have cout: "map (contents h1) (outp @ [?diff]) = ?pout @ [?pdiff]"
    by (simp add: co cd)
  have dnil: "?diff = [] \<longleftrightarrow> ?pdiff = []"
    using cd by (metis contents_def map_is_Nil_conv)
  have unf: "h_pl_loop h inp outp u =
      (if u' then Some (True, outp @ [?diff], h1)
       else if ?diff = [] then Some (False, outp @ [?diff], h1)
       else h_pl_loop h1 ?in' (outp @ [?diff]) u')"
    by (subst h_pl_loop.simps) (simp add: sc Let_def)
  show ?case
  proof (cases "?pu \<or> ?pdiff = []")
    case True
    then have "pl_loop ?pin ?pout u = (?pu, ?pout @ [?pdiff])"
      by (auto simp: pl_loop_unfold [of ?pin ?pout u])
    with True show ?thesis
      using fr cout c(2) dnil by (auto simp: unf)
  next
    case False
    then have p: "pl_loop ?pin ?pout u = pl_loop (set_update ?pin ?pnew) (?pout @ [?pdiff]) ?pu"
      by (simp add: pl_loop_unfold [of ?pin ?pout u])
    have v1: "\<forall>a \<in> set ?in'. a < length h1"
      using set_h_set_update [of h1 inp new] "1.prems"(1) nw fr(2) by fastforce
    have "set ?diff \<subseteq> set new" by (auto simp: h_set_difference_def)
    then have v2: "\<forall>d \<in> set (outp @ [?diff]). \<forall>a \<in> set d. a < length h1"
      using "1.prems"(2) nw fr(2) by fastforce
    have pair: "(?pnew, ?pu) = scan ?pin u" by simp
    from False have nu: "\<not> ?pu" and nd: "?pdiff \<noteq> []" by simp_all
    from "1.hyps" [OF pair refl cout cin nu nd v1 v2]
    obtain outs h' where r0: "h_pl_loop h1 ?in' (outp @ [?diff]) ?pu =
             Some (fst (pl_loop (contents h1 ?in') (map (contents h1) (outp @ [?diff])) ?pu), outs, h')"
      "take (length h1) h' = h1" "length h1 \<le> length h'"
      "map (contents h') outs = snd (pl_loop (contents h1 ?in') (map (contents h1) (outp @ [?diff])) ?pu)"
      by blast
    note r = r0 [unfolded cin cout]
    have "take (length h) h' = h" using fr r(2,3) by (rule frame_trans)
    with r False fr(2) show ?thesis
      using c(2) dnil by (auto simp: unf p)
  qed
qed


section \<open>Properties of cleaning, equality and resolve\<close>

text \<open>
  C3. On a cleaned clause (the result of \<open>clean\<close>: no repeated literal, sorted by symbol
  and then unnegated before negated) \<open>is_meaningless\<close>, which only compares neighbours,
  answers true exactly when the clause contains both the unnegated and the negated
  literal of some symbol \<open>P\<close>.
\<close>

theorem is_meaningless_clean_iff:
  "is_meaningless (clean c) \<longleftrightarrow>
     (\<exists>P. \<lparr>symbol = P, negation = False\<rparr> \<in> set (literals (clean c)) \<and>
          \<lparr>symbol = P, negation = True\<rparr> \<in> set (literals (clean c)))"
proof
  assume "is_meaningless (clean c)"
  then show "\<exists>P. \<lparr>symbol = P, negation = False\<rparr> \<in> set (literals (clean c)) \<and>
          \<lparr>symbol = P, negation = True\<rparr> \<in> set (literals (clean c))"
    unfolding is_meaningless_def by (rule adjacent_opposite_contains)
next
  assume "\<exists>P. \<lparr>symbol = P, negation = False\<rparr> \<in> set (literals (clean c)) \<and>
          \<lparr>symbol = P, negation = True\<rparr> \<in> set (literals (clean c))"
  then obtain P where "\<lparr>symbol = P, negation = False\<rparr> \<in> set (literals (clean c))"
    "\<lparr>symbol = P, negation = True\<rparr> \<in> set (literals (clean c))" by blast
  moreover note clean_sorted [of c] clean_distinct [of c]
  ultimately show "is_meaningless (clean c)"
    unfolding is_meaningless_def by (rule contains_adjacent_opposite [rotated 2])
qed

text \<open>
  C4, as the claim states it, fails for the hash. The clauses built by adding \<open>A\<close>, \<open>-B\<close>
  and by adding \<open>-B\<close>, \<open>A\<close> with \<^verbatim>\<open>add_literal\<close> hold the same set of literals and
  compare equal, but their literal lists are \<open>[A, -B]\<close> and \<open>[-B, A]\<close>, and
  \<^verbatim>\<open>hash(tuple(self.literals))\<close> reads the list in its order. With a hash of tuples that
  depends on the order of the elements, as Python's does, the two hashes differ: here the
  string hash is the length of the string (1 for \<^verbatim>\<open>A\<close>, 2 for \<^verbatim>\<open>-B\<close>) and the tuple hash
  the polynomial \<open>h \<mapsto> 31 * h + x\<close> from 7, which give 6760 and 6790.
\<close>

theorem clause_hash_insertion_order_counterexample:
  "set [\<lparr>symbol = ''A'', negation = False\<rparr>, \<lparr>symbol = ''B'', negation = True\<rparr>] = set [\<lparr>symbol = ''B'', negation = True\<rparr>, \<lparr>symbol = ''A'', negation = False\<rparr>] \<and>
   eq_clause
     (foldl add_literal empty_clause [\<lparr>symbol = ''A'', negation = False\<rparr>, \<lparr>symbol = ''B'', negation = True\<rparr>])
     (foldl add_literal empty_clause [\<lparr>symbol = ''B'', negation = True\<rparr>, \<lparr>symbol = ''A'', negation = False\<rparr>]) \<and>
   literals (foldl add_literal empty_clause [\<lparr>symbol = ''A'', negation = False\<rparr>, \<lparr>symbol = ''B'', negation = True\<rparr>]) = [\<lparr>symbol = ''A'', negation = False\<rparr>, \<lparr>symbol = ''B'', negation = True\<rparr>] \<and>
   literals (foldl add_literal empty_clause [\<lparr>symbol = ''B'', negation = True\<rparr>, \<lparr>symbol = ''A'', negation = False\<rparr>]) = [\<lparr>symbol = ''B'', negation = True\<rparr>, \<lparr>symbol = ''A'', negation = False\<rparr>] \<and>
   hash_clause (\<lambda>s. int (length s)) (foldl (\<lambda>h x. 31 * h + x) 7)
     (foldl add_literal empty_clause [\<lparr>symbol = ''A'', negation = False\<rparr>, \<lparr>symbol = ''B'', negation = True\<rparr>]) = 6760 \<and>
   hash_clause (\<lambda>s. int (length s)) (foldl (\<lambda>h x. 31 * h + x) 7)
     (foldl add_literal empty_clause [\<lparr>symbol = ''B'', negation = True\<rparr>, \<lparr>symbol = ''A'', negation = False\<rparr>]) = 6790 \<and>
   hash_clause (\<lambda>s. int (length s)) (foldl (\<lambda>h x. 31 * h + x) 7)
     (foldl add_literal empty_clause [\<lparr>symbol = ''A'', negation = False\<rparr>, \<lparr>symbol = ''B'', negation = True\<rparr>]) \<noteq>
   hash_clause (\<lambda>s. int (length s)) (foldl (\<lambda>h x. 31 * h + x) 7)
     (foldl add_literal empty_clause [\<lparr>symbol = ''B'', negation = True\<rparr>, \<lparr>symbol = ''A'', negation = False\<rparr>])"
proof -
  have e: "set [\<lparr>symbol = ''A'', negation = False\<rparr>, \<lparr>symbol = ''B'', negation = True\<rparr>] = set [\<lparr>symbol = ''B'', negation = True\<rparr>, \<lparr>symbol = ''A'', negation = False\<rparr>]"
    by auto
  then have q: "eq_clause
     (foldl add_literal empty_clause [\<lparr>symbol = ''A'', negation = False\<rparr>, \<lparr>symbol = ''B'', negation = True\<rparr>])
     (foldl add_literal empty_clause [\<lparr>symbol = ''B'', negation = True\<rparr>, \<lparr>symbol = ''A'', negation = False\<rparr>])"
    by (simp add: eq_clause_def add_literal_def empty_clause_def)
  have l1: "literals (foldl add_literal empty_clause [\<lparr>symbol = ''A'', negation = False\<rparr>, \<lparr>symbol = ''B'', negation = True\<rparr>]) = [\<lparr>symbol = ''A'', negation = False\<rparr>, \<lparr>symbol = ''B'', negation = True\<rparr>]"
    by (simp add: add_literal_def empty_clause_def)
  have l2: "literals (foldl add_literal empty_clause [\<lparr>symbol = ''B'', negation = True\<rparr>, \<lparr>symbol = ''A'', negation = False\<rparr>]) = [\<lparr>symbol = ''B'', negation = True\<rparr>, \<lparr>symbol = ''A'', negation = False\<rparr>]"
    by (simp add: add_literal_def empty_clause_def)
  have h1: "hash_clause (\<lambda>s. int (length s)) (foldl (\<lambda>h x. 31 * h + x) 7)
     (foldl add_literal empty_clause [\<lparr>symbol = ''A'', negation = False\<rparr>, \<lparr>symbol = ''B'', negation = True\<rparr>]) = 6760"
    by (simp add: hash_clause_def hash_literal_def add_literal_def empty_clause_def)
  have h2: "hash_clause (\<lambda>s. int (length s)) (foldl (\<lambda>h x. 31 * h + x) 7)
     (foldl add_literal empty_clause [\<lparr>symbol = ''B'', negation = True\<rparr>, \<lparr>symbol = ''A'', negation = False\<rparr>]) = 6790"
    by (simp add: hash_clause_def hash_literal_def add_literal_def empty_clause_def)
  show ?thesis using e q l1 l2 unfolding h1 h2 by simp
qed

text \<open>
  C4, amended. \<^verbatim>\<open>__eq__\<close> holds of two clauses exactly when \<open>clean\<close> makes them the same
  clause. So two clauses built from the same set of literals, added with \<^verbatim>\<open>add_literal\<close>
  in any order (and any number of times), compare equal as they are; and once both are
  cleaned they are the same clause, with the same literal list, and then they also have
  the same \<^verbatim>\<open>__hash__\<close>, whatever the built-in hash functions of strings and tuples are.
\<close>

theorem clause_eq_order_independent_hash_after_clean:
  "(eq_clause c d \<longleftrightarrow> clean c = clean d) \<and>
   (set xs = set ys \<longrightarrow>
      eq_clause (foldl add_literal empty_clause xs) (foldl add_literal empty_clause ys) \<and>
      clean (foldl add_literal empty_clause xs) = clean (foldl add_literal empty_clause ys) \<and>
      eq_clause (clean (foldl add_literal empty_clause xs))
        (clean (foldl add_literal empty_clause ys)) \<and>
      hash_clause hs ht (clean (foldl add_literal empty_clause xs)) =
        hash_clause hs ht (clean (foldl add_literal empty_clause ys)))"
proof -
  have "eq_clause (foldl add_literal empty_clause xs) (foldl add_literal empty_clause ys) \<and>
      clean (foldl add_literal empty_clause xs) = clean (foldl add_literal empty_clause ys) \<and>
      eq_clause (clean (foldl add_literal empty_clause xs))
        (clean (foldl add_literal empty_clause ys)) \<and>
      hash_clause hs ht (clean (foldl add_literal empty_clause xs)) =
        hash_clause hs ht (clean (foldl add_literal empty_clause ys))"
    if a: "set xs = set ys"
  proof -
    from a have q: "eq_clause (foldl add_literal empty_clause xs)
        (foldl add_literal empty_clause ys)"
      by (simp add: eq_clause_def foldl_add_literal empty_clause_def)
    then have c: "clean (foldl add_literal empty_clause xs) =
        clean (foldl add_literal empty_clause ys)"
      by (simp only: eq_clause_iff_clean)
    have "eq_clause (clean (foldl add_literal empty_clause xs))
        (clean (foldl add_literal empty_clause ys))"
      unfolding c by (simp add: eq_clause_def)
    with q c show ?thesis by simp
  qed
  then show ?thesis using eq_clause_iff_clean [of c d] by blast
qed

theorem clause_eq_order_independent_hash_after_clean_witness:
  "set [\<lparr>symbol = ''A'', negation = False\<rparr>, \<lparr>symbol = ''B'', negation = True\<rparr>] = set [\<lparr>symbol = ''B'', negation = True\<rparr>, \<lparr>symbol = ''A'', negation = False\<rparr>, \<lparr>symbol = ''B'', negation = True\<rparr>] \<and>
   eq_clause
     (foldl add_literal empty_clause [\<lparr>symbol = ''A'', negation = False\<rparr>, \<lparr>symbol = ''B'', negation = True\<rparr>])
     (foldl add_literal empty_clause [\<lparr>symbol = ''B'', negation = True\<rparr>, \<lparr>symbol = ''A'', negation = False\<rparr>, \<lparr>symbol = ''B'', negation = True\<rparr>]) \<and>
   clean (foldl add_literal empty_clause [\<lparr>symbol = ''A'', negation = False\<rparr>, \<lparr>symbol = ''B'', negation = True\<rparr>]) =
     clean (foldl add_literal empty_clause [\<lparr>symbol = ''B'', negation = True\<rparr>, \<lparr>symbol = ''A'', negation = False\<rparr>, \<lparr>symbol = ''B'', negation = True\<rparr>]) \<and>
   literals (clean (foldl add_literal empty_clause [\<lparr>symbol = ''B'', negation = True\<rparr>, \<lparr>symbol = ''A'', negation = False\<rparr>, \<lparr>symbol = ''B'', negation = True\<rparr>])) = [\<lparr>symbol = ''A'', negation = False\<rparr>, \<lparr>symbol = ''B'', negation = True\<rparr>] \<and>
   eq_clause
     (clean (foldl add_literal empty_clause [\<lparr>symbol = ''A'', negation = False\<rparr>, \<lparr>symbol = ''B'', negation = True\<rparr>]))
     (clean (foldl add_literal empty_clause [\<lparr>symbol = ''B'', negation = True\<rparr>, \<lparr>symbol = ''A'', negation = False\<rparr>, \<lparr>symbol = ''B'', negation = True\<rparr>])) \<and>
   hash_clause (\<lambda>s. int (length s)) (foldl (\<lambda>h x. 31 * h + x) 7)
     (clean (foldl add_literal empty_clause [\<lparr>symbol = ''A'', negation = False\<rparr>, \<lparr>symbol = ''B'', negation = True\<rparr>])) =
   hash_clause (\<lambda>s. int (length s)) (foldl (\<lambda>h x. 31 * h + x) 7)
     (clean (foldl add_literal empty_clause [\<lparr>symbol = ''B'', negation = True\<rparr>, \<lparr>symbol = ''A'', negation = False\<rparr>, \<lparr>symbol = ''B'', negation = True\<rparr>]))"
proof -
  have h: "set [\<lparr>symbol = ''A'', negation = False\<rparr>, \<lparr>symbol = ''B'', negation = True\<rparr>] = set [\<lparr>symbol = ''B'', negation = True\<rparr>, \<lparr>symbol = ''A'', negation = False\<rparr>, \<lparr>symbol = ''B'', negation = True\<rparr>]"
    by auto
  have l: "literals (clean (foldl add_literal empty_clause [\<lparr>symbol = ''B'', negation = True\<rparr>, \<lparr>symbol = ''A'', negation = False\<rparr>, \<lparr>symbol = ''B'', negation = True\<rparr>])) = [\<lparr>symbol = ''A'', negation = False\<rparr>, \<lparr>symbol = ''B'', negation = True\<rparr>]"
    by code_simp
  show ?thesis
    using h l clause_eq_order_independent_hash_after_clean
      [of _ _ "[\<lparr>symbol = ''A'', negation = False\<rparr>, \<lparr>symbol = ''B'', negation = True\<rparr>]" "[\<lparr>symbol = ''B'', negation = True\<rparr>, \<lparr>symbol = ''A'', negation = False\<rparr>, \<lparr>symbol = ''B'', negation = True\<rparr>]" "\<lambda>s. int (length s)" "foldl (\<lambda>h x. 31 * h + x) 7"]
    by blast
qed

text \<open>
  C5. Resolving the unit clauses \<open>{P}\<close> and \<open>{-P}\<close> (for the symbol \<open>A\<close> of the claim and
  for any other) returns the empty clause as the one resolvent and the flag true. In
  general the scan never stops early: the returned set holds the resolvent of every pair
  of opposite literals that is not meaningless, each once, also those found after the
  empty clause; and the flag is true exactly when the empty clause is among them.
\<close>

theorem resolve_units_and_scans_all_pairs:
  "resolve \<lparr>literals = [\<lparr>symbol = P, negation = False\<rparr>]\<rparr>
           \<lparr>literals = [\<lparr>symbol = P, negation = True\<rparr>]\<rparr> = ([empty_clause], True) \<and>
   set (fst (resolve c1 c2)) =
     {r. \<exists>l1 l2. l1 \<in> set (literals c1) \<and> l2 \<in> set (literals c2) \<and> is_opposite l1 l2 \<and>
           r = merge (clone_without_literal c1 l1) (clone_without_literal c2 l2) \<and>
           \<not> is_meaningless r} \<and>
   distinct (fst (resolve c1 c2)) \<and>
   snd (resolve c1 c2) = (empty_clause \<in> set (fst (resolve c1 c2)))"
proof -
  have "resolve \<lparr>literals = [\<lparr>symbol = P, negation = False\<rparr>]\<rparr>
           \<lparr>literals = [\<lparr>symbol = P, negation = True\<rparr>]\<rparr> = ([empty_clause], True)"
    by (simp add: resolve_def resolve_body_def is_opposite_def merge_def
        clone_without_literal_filter empty_clause_def clean_def is_meaningless_def
        is_empty_def set_add_def)
  moreover have "set (fst (resolve c1 c2)) =
     {r. \<exists>l1 l2. l1 \<in> set (literals c1) \<and> l2 \<in> set (literals c2) \<and> is_opposite l1 l2 \<and>
           r = merge (clone_without_literal c1 l1) (clone_without_literal c2 l2) \<and>
           \<not> is_meaningless r}"
    unfolding set_resolve resolvent_def by blast
  ultimately show ?thesis
    using distinct_resolve [of c1 c2] snd_resolve_mem [of c1 c2] by simp
qed

text \<open>
  C6. Resolving \<open>{A, B}\<close> and \<open>{-A, -B}\<close> returns no resolvent at all: both candidates,
  \<open>{B, -B}\<close> and \<open>{A, -A}\<close>, are meaningless and are dropped. In general no clause that
  \<open>resolve\<close> returns is meaningless, and none contains a literal together with its
  negation.
\<close>

theorem resolve_discards_tautologies:
  "resolve \<lparr>literals = [\<lparr>symbol = ''A'', negation = False\<rparr>, \<lparr>symbol = ''B'', negation = False\<rparr>]\<rparr>
           \<lparr>literals = [\<lparr>symbol = ''A'', negation = True\<rparr>, \<lparr>symbol = ''B'', negation = True\<rparr>]\<rparr>
     = ([], False) \<and>
   (r \<in> set (fst (resolve c1 c2)) \<longrightarrow>
      \<not> is_meaningless r \<and>
      \<not> (\<exists>P. \<lparr>symbol = P, negation = False\<rparr> \<in> set (literals r) \<and>
               \<lparr>symbol = P, negation = True\<rparr> \<in> set (literals r)))"
proof -
  have "resolve \<lparr>literals = [\<lparr>symbol = ''A'', negation = False\<rparr>, \<lparr>symbol = ''B'', negation = False\<rparr>]\<rparr>
           \<lparr>literals = [\<lparr>symbol = ''A'', negation = True\<rparr>, \<lparr>symbol = ''B'', negation = True\<rparr>]\<rparr>
     = ([], False)"
    by (simp add: resolve_def resolve_body_def is_opposite_def merge_def
        clone_without_literal_filter clean_def is_meaningless_def lit_key_def)
  moreover have "\<not> is_meaningless r \<and>
      \<not> (\<exists>P. \<lparr>symbol = P, negation = False\<rparr> \<in> set (literals r) \<and>
               \<lparr>symbol = P, negation = True\<rparr> \<in> set (literals r))"
    if "r \<in> set (fst (resolve c1 c2))"
  proof -
    from that obtain l1 l2 where r: "r = resolvent c1 c2 l1 l2" and nm: "\<not> is_meaningless r"
      unfolding set_resolve by blast
    from r obtain d where "r = clean d" by (simp add: resolvent_def merge_def)
    with nm show ?thesis
      using adjacent_opposite_contains contains_adjacent_opposite [OF clean_sorted clean_distinct]
      unfolding is_meaningless_def by blast
  qed
  ultimately show ?thesis by blast
qed

theorem resolve_discards_tautologies_witness:
  "\<lparr>literals = [\<lparr>symbol = ''B'', negation = False\<rparr>]\<rparr> \<in> set (fst (resolve
      \<lparr>literals = [\<lparr>symbol = ''A'', negation = False\<rparr>, \<lparr>symbol = ''B'', negation = False\<rparr>]\<rparr>
      \<lparr>literals = [\<lparr>symbol = ''A'', negation = True\<rparr>, \<lparr>symbol = ''B'', negation = False\<rparr>]\<rparr>)) \<and>
   \<not> is_meaningless \<lparr>literals = [\<lparr>symbol = ''B'', negation = False\<rparr>]\<rparr> \<and>
   \<not> (\<exists>P. \<lparr>symbol = P, negation = False\<rparr> \<in> set (literals \<lparr>literals = [\<lparr>symbol = ''B'', negation = False\<rparr>]\<rparr>) \<and>
            \<lparr>symbol = P, negation = True\<rparr> \<in> set (literals \<lparr>literals = [\<lparr>symbol = ''B'', negation = False\<rparr>]\<rparr>))"
proof -
  have h: "\<lparr>literals = [\<lparr>symbol = ''B'', negation = False\<rparr>]\<rparr> \<in> set (fst (resolve
      \<lparr>literals = [\<lparr>symbol = ''A'', negation = False\<rparr>, \<lparr>symbol = ''B'', negation = False\<rparr>]\<rparr>
      \<lparr>literals = [\<lparr>symbol = ''A'', negation = True\<rparr>, \<lparr>symbol = ''B'', negation = False\<rparr>]\<rparr>))"
    by (simp add: resolve_def resolve_body_def is_opposite_def merge_def
        clone_without_literal_filter clean_def is_meaningless_def lit_key_def set_add_def
        is_empty_def)
  show ?thesis
    using h resolve_discards_tautologies
      [of "\<lparr>literals = [\<lparr>symbol = ''B'', negation = False\<rparr>]\<rparr>"
          "\<lparr>literals = [\<lparr>symbol = ''A'', negation = False\<rparr>, \<lparr>symbol = ''B'', negation = False\<rparr>]\<rparr>"
          "\<lparr>literals = [\<lparr>symbol = ''A'', negation = True\<rparr>, \<lparr>symbol = ''B'', negation = False\<rparr>]\<rparr>"]
    by blast
qed

section \<open>Properties of the saturation\<close>

text \<open>
  C1. \<open>pl_resolution\<close> runs the rounds \<open>0, \<dots>, n\<close> and appends the new clauses of each
  of them to the output, those of the last round too. Every round before the last found
  no empty clause and found new clauses. The verdict is true exactly when the last round,
  scanning all unordered pairs of its working set, found the empty clause as a resolvent,
  which is the same as: some round that ran found it; so the loop stops at the end of
  the first such round. When the verdict is false, the last round found nothing new, and
  its empty set of new clauses is the last entry of the output.
\<close>

theorem pl_resolution_rounds:
  "let ws = set_of_list (clauses kb);
       entailed = fst (pl_resolution kb);
       output = snd (pl_resolution kb);
       n = length output - 1
   in output \<noteq> [] \<and>
      output = map (round_diff ws) [0..<Suc n] \<and>
      (\<forall>k<n. \<not> round_empty ws k \<and> round_diff ws k \<noteq> []) \<and>
      entailed = round_empty ws n \<and>
      entailed = (\<exists>k<length output. round_empty ws k) \<and>
      (\<not> entailed \<longrightarrow> last output = [])"
proof -
  let ?ws = "set_of_list (clauses kb)"
  obtain b outs where r: "pl_resolution kb = (b, outs)" by (cases "pl_resolution kb")
  then have "pl_loop ?ws [] False = (b, outs)" by (simp add: pl_resolution_def)
  from pl_loop_rounds [OF this] obtain n where n:
    "outs = map (round_diff ?ws) [0..<Suc n]"
    "\<forall>k<n. \<not> round_empty ?ws k \<and> round_diff ?ws k \<noteq> []"
    "b = round_empty ?ws n" "\<not> b \<longrightarrow> round_diff ?ws n = []"
    by auto
  from n(1) have len: "length outs - 1 = n" "length outs = Suc n" "outs \<noteq> []" by auto
  from n(1) have lst: "last outs = round_diff ?ws n" by simp
  have ex: "b = (\<exists>k<length outs. round_empty ?ws k)"
  proof
    assume b
    with n(3) len(2) show "\<exists>k<length outs. round_empty ?ws k" by auto
  next
    assume "\<exists>k<length outs. round_empty ?ws k"
    then obtain k where "k < Suc n" "round_empty ?ws k" using len(2) by auto
    with n(2) have "k = n" by (metis less_Suc_eq)
    with \<open>round_empty ?ws k\<close> n(3) show b by simp
  qed
  show ?thesis
    unfolding Let_def r fst_conv snd_conv len(1)
    using n len(3) lst ex by auto
qed

theorem pl_resolution_rounds_witness:
  "pl_resolution
     \<lparr>clauses =
       [\<lparr>literals = [\<lparr>symbol = ''B'', negation = False\<rparr>]\<rparr>,
        \<lparr>literals = [\<lparr>symbol = ''A'', negation = False\<rparr>, \<lparr>symbol = ''B'', negation = True\<rparr>]\<rparr>,
        \<lparr>literals = [\<lparr>symbol = ''A'', negation = True\<rparr>]\<rparr>]\<rparr> = (True,
      [[\<lparr>literals = [\<lparr>symbol = ''A'', negation = False\<rparr>]\<rparr>,
        \<lparr>literals = [\<lparr>symbol = ''B'', negation = True\<rparr>]\<rparr>],
       [\<lparr>literals = []\<rparr>]]) \<and>
   \<not> round_empty
     [\<lparr>literals = [\<lparr>symbol = ''B'', negation = False\<rparr>]\<rparr>,
        \<lparr>literals = [\<lparr>symbol = ''A'', negation = False\<rparr>, \<lparr>symbol = ''B'', negation = True\<rparr>]\<rparr>,
        \<lparr>literals = [\<lparr>symbol = ''A'', negation = True\<rparr>]\<rparr>] 0 \<and>
   round_diff
     [\<lparr>literals = [\<lparr>symbol = ''B'', negation = False\<rparr>]\<rparr>,
        \<lparr>literals = [\<lparr>symbol = ''A'', negation = False\<rparr>, \<lparr>symbol = ''B'', negation = True\<rparr>]\<rparr>,
        \<lparr>literals = [\<lparr>symbol = ''A'', negation = True\<rparr>]\<rparr>] 0 \<noteq> [] \<and>
   round_empty
     [\<lparr>literals = [\<lparr>symbol = ''B'', negation = False\<rparr>]\<rparr>,
        \<lparr>literals = [\<lparr>symbol = ''A'', negation = False\<rparr>, \<lparr>symbol = ''B'', negation = True\<rparr>]\<rparr>,
        \<lparr>literals = [\<lparr>symbol = ''A'', negation = True\<rparr>]\<rparr>] 1"
proof -
  have ev: "pl_resolution
     \<lparr>clauses =
       [\<lparr>literals = [\<lparr>symbol = ''B'', negation = False\<rparr>]\<rparr>,
        \<lparr>literals = [\<lparr>symbol = ''A'', negation = False\<rparr>, \<lparr>symbol = ''B'', negation = True\<rparr>]\<rparr>,
        \<lparr>literals = [\<lparr>symbol = ''A'', negation = True\<rparr>]\<rparr>]\<rparr> = (True,
      [[\<lparr>literals = [\<lparr>symbol = ''A'', negation = False\<rparr>]\<rparr>,
        \<lparr>literals = [\<lparr>symbol = ''B'', negation = True\<rparr>]\<rparr>],
       [\<lparr>literals = []\<rparr>]])"
    by code_simp
  have ws: "set_of_list (clauses
     \<lparr>clauses =
       [\<lparr>literals = [\<lparr>symbol = ''B'', negation = False\<rparr>]\<rparr>,
        \<lparr>literals = [\<lparr>symbol = ''A'', negation = False\<rparr>, \<lparr>symbol = ''B'', negation = True\<rparr>]\<rparr>,
        \<lparr>literals = [\<lparr>symbol = ''A'', negation = True\<rparr>]\<rparr>]\<rparr>) =
     [\<lparr>literals = [\<lparr>symbol = ''B'', negation = False\<rparr>]\<rparr>,
        \<lparr>literals = [\<lparr>symbol = ''A'', negation = False\<rparr>, \<lparr>symbol = ''B'', negation = True\<rparr>]\<rparr>,
        \<lparr>literals = [\<lparr>symbol = ''A'', negation = True\<rparr>]\<rparr>]"
    by code_simp
  show ?thesis
    using pl_resolution_rounds [of "\<lparr>clauses =
       [\<lparr>literals = [\<lparr>symbol = ''B'', negation = False\<rparr>]\<rparr>,
        \<lparr>literals = [\<lparr>symbol = ''A'', negation = False\<rparr>, \<lparr>symbol = ''B'', negation = True\<rparr>]\<rparr>,
        \<lparr>literals = [\<lparr>symbol = ''A'', negation = True\<rparr>]\<rparr>]\<rparr>"]
    unfolding Let_def ev ws by simp
qed

text \<open>
  Termination, and a bound on the rounds. \<open>pl_resolution\<close> returns: its loop is a total
  function, by the termination proof above. When the literals of the knowledge base lie
  in a finite set \<open>A\<close> of literals, it runs at most \<open>2 ^ card A\<close> rounds: every round before
  the last adds a cleaned clause over \<open>A\<close> that is new and is not the empty clause, and
  there are at most \<open>2 ^ card A - 1\<close> such clauses. The elements of \<open>A\<close> are literals, a
  symbol with a polarity: for \<open>n\<close> distinct symbols the bound is \<open>2 ^ (2 * n)\<close>
  (\<open>pl_resolution_rounds_symbols\<close>). The bound \<open>2 ^ n\<close> in the number of symbols, which is
  what C2 states, is neither proved nor refuted here.
\<close>

lemma pl_resolution_rounds_literals:
  assumes "finite A" "\<forall>c \<in> set (clauses kb). set (literals c) \<subseteq> A"
  shows "\<exists>entailed outs. pl_resolution kb = (entailed, outs) \<and> 0 < length outs \<and>
           length outs \<le> 2 ^ card A"
proof -
  let ?ws = "set_of_list (clauses kb)"
  obtain b outs where r: "pl_resolution kb = (b, outs)" by (cases "pl_resolution kb")
  then have l: "pl_loop ?ws [] False = (b, outs)" by (simp add: pl_resolution_def)
  have "lits_of ?ws \<subseteq> A" using assms(2) by (auto simp: lits_of_def)
  from pl_loop_length_fresh [OF l assms(1) this] fresh_bound [OF assms(1), of ?ws]
  have "length outs \<le> 2 ^ card A" by simp
  moreover from pl_loop_rounds [OF l] have "0 < length outs" by auto
  ultimately show ?thesis using r by simp
qed

lemma pl_resolution_rounds_literals_example:
  "finite {\<lparr>symbol = ''A'', negation = False\<rparr>, \<lparr>symbol = ''A'', negation = True\<rparr>, \<lparr>symbol = ''B'', negation = False\<rparr>, \<lparr>symbol = ''B'', negation = True\<rparr>} \<and>
   set (literals \<lparr>literals = [\<lparr>symbol = ''B'', negation = False\<rparr>]\<rparr>) \<subseteq> {\<lparr>symbol = ''A'', negation = False\<rparr>, \<lparr>symbol = ''A'', negation = True\<rparr>, \<lparr>symbol = ''B'', negation = False\<rparr>, \<lparr>symbol = ''B'', negation = True\<rparr>} \<and>
   set (literals \<lparr>literals = [\<lparr>symbol = ''A'', negation = False\<rparr>, \<lparr>symbol = ''B'', negation = True\<rparr>]\<rparr>) \<subseteq> {\<lparr>symbol = ''A'', negation = False\<rparr>, \<lparr>symbol = ''A'', negation = True\<rparr>, \<lparr>symbol = ''B'', negation = False\<rparr>, \<lparr>symbol = ''B'', negation = True\<rparr>} \<and>
   set (literals \<lparr>literals = [\<lparr>symbol = ''A'', negation = True\<rparr>]\<rparr>) \<subseteq> {\<lparr>symbol = ''A'', negation = False\<rparr>, \<lparr>symbol = ''A'', negation = True\<rparr>, \<lparr>symbol = ''B'', negation = False\<rparr>, \<lparr>symbol = ''B'', negation = True\<rparr>} \<and>
   card {\<lparr>symbol = ''A'', negation = False\<rparr>, \<lparr>symbol = ''A'', negation = True\<rparr>, \<lparr>symbol = ''B'', negation = False\<rparr>, \<lparr>symbol = ''B'', negation = True\<rparr>} = 4 \<and>
   length (snd (pl_resolution
     \<lparr>clauses = [\<lparr>literals = [\<lparr>symbol = ''B'', negation = False\<rparr>]\<rparr>, \<lparr>literals = [\<lparr>symbol = ''A'', negation = False\<rparr>, \<lparr>symbol = ''B'', negation = True\<rparr>]\<rparr>, \<lparr>literals = [\<lparr>symbol = ''A'', negation = True\<rparr>]\<rparr>]\<rparr>)) = 2 \<and>
   length (snd (pl_resolution
     \<lparr>clauses = [\<lparr>literals = [\<lparr>symbol = ''B'', negation = False\<rparr>]\<rparr>, \<lparr>literals = [\<lparr>symbol = ''A'', negation = False\<rparr>, \<lparr>symbol = ''B'', negation = True\<rparr>]\<rparr>, \<lparr>literals = [\<lparr>symbol = ''A'', negation = True\<rparr>]\<rparr>]\<rparr>))
     \<le> 2 ^ card {\<lparr>symbol = ''A'', negation = False\<rparr>, \<lparr>symbol = ''A'', negation = True\<rparr>, \<lparr>symbol = ''B'', negation = False\<rparr>, \<lparr>symbol = ''B'', negation = True\<rparr>}"
proof -
  let ?A = "{\<lparr>symbol = ''A'', negation = False\<rparr>, \<lparr>symbol = ''A'', negation = True\<rparr>, \<lparr>symbol = ''B'', negation = False\<rparr>, \<lparr>symbol = ''B'', negation = True\<rparr>}"
  let ?kb = "\<lparr>clauses = [\<lparr>literals = [\<lparr>symbol = ''B'', negation = False\<rparr>]\<rparr>, \<lparr>literals = [\<lparr>symbol = ''A'', negation = False\<rparr>, \<lparr>symbol = ''B'', negation = True\<rparr>]\<rparr>, \<lparr>literals = [\<lparr>symbol = ''A'', negation = True\<rparr>]\<rparr>]\<rparr>"
  have h1: "finite ?A" by simp
  have h2: "\<forall>c \<in> set (clauses ?kb). set (literals c) \<subseteq> ?A" by simp
  have c: "card ?A = 4" by simp
  have ev: "length (snd (pl_resolution ?kb)) = 2" by code_simp
  from pl_resolution_rounds_literals [OF h1 h2]
  have "length (snd (pl_resolution ?kb)) \<le> 2 ^ card ?A" by auto
  with h1 c ev show ?thesis by simp
qed

section \<open>Properties of parsing and of the build\<close>

text \<open>
  C10, as the claim states it, fails: the token \<^verbatim>\<open>-\<close> is not empty after stripping, and
  \<^verbatim>\<open>parse_literal\<close> raises \<^verbatim>\<open>IndexError\<close> on it, at \<^verbatim>\<open>string_literal[1]\<close>.
\<close>

theorem parse_literal_dash_counterexample:
  "strip ''-'' = ''-'' \<and> parse_literal ''-'' = Inl IndexError"
  by (simp add: parse_literal_def strip_def is_space_def)

text \<open>
  C10, amended. A token whose stripped form begins with a character other than \<^verbatim>\<open>-\<close>
  parses to the unnegated literal of that character, and one whose stripped form begins
  with \<^verbatim>\<open>-\<close> and a second character parses to the negated literal of the second
  character; whatever follows is ignored, so \<^verbatim>\<open>AB\<close> parses to the unnegated \<open>A\<close>. The
  only failure is \<^verbatim>\<open>IndexError\<close>, on a token that is empty after stripping or is
  \<^verbatim>\<open>-\<close> alone: no character is ever refused as a symbol.
\<close>

theorem parse_literal_reads_prefix:
  "(strip t = c # r \<and> c \<noteq> CHR ''-'' \<longrightarrow>
      parse_literal t = Inr \<lparr>symbol = [c], negation = False\<rparr>) \<and>
   (strip t = CHR ''-'' # d # r \<longrightarrow>
      parse_literal t = Inr \<lparr>symbol = [d], negation = True\<rparr>) \<and>
   (parse_literal t = Inl e \<longrightarrow> e = IndexError \<and> (strip t = [] \<or> strip t = ''-'')) \<and>
   parse_literal ''AB'' = Inr \<lparr>symbol = ''A'', negation = False\<rparr>"
proof -
  have "parse_literal ''AB'' = Inr \<lparr>symbol = ''A'', negation = False\<rparr>"
    by (simp add: parse_literal_def strip_def is_space_def)
  moreover have "e = IndexError \<and> (strip t = [] \<or> strip t = ''-'')" if "parse_literal t = Inl e"
    using that by (cases e) (auto simp: parse_literal_def split: list.splits if_splits)
  ultimately show ?thesis by (auto simp: parse_literal_def)
qed

theorem parse_literal_reads_prefix_witness:
  "strip '' xyz '' = ''xyz'' \<and> CHR ''x'' \<noteq> CHR ''-'' \<and>
   parse_literal '' xyz '' = Inr \<lparr>symbol = ''x'', negation = False\<rparr> \<and>
   strip ''-AB'' = ''-AB'' \<and>
   parse_literal ''-AB'' = Inr \<lparr>symbol = ''A'', negation = True\<rparr> \<and>
   parse_literal ''-'' = Inl IndexError \<and> strip ''-'' = ''-''"
proof -
  have h1: "strip '' xyz '' = ''xyz''" by (simp add: strip_def is_space_def)
  have h2: "strip ''-AB'' = ''-AB''" by (simp add: strip_def is_space_def)
  have h3: "parse_literal ''-'' = Inl IndexError"
    by (simp add: parse_literal_def strip_def is_space_def)
  have h4: "strip ''-'' = ''-''" by (simp add: strip_def is_space_def)
  have a: "parse_literal '' xyz '' = Inr \<lparr>symbol = ''x'', negation = False\<rparr>"
    using h1 parse_literal_reads_prefix [of "'' xyz ''" "CHR ''x''" "''yz''"] by simp
  have b: "parse_literal ''-AB'' = Inr \<lparr>symbol = ''A'', negation = True\<rparr>"
    using h2 parse_literal_reads_prefix [of "''-AB''" _ "''B''" "CHR ''A''"] by simp
  show ?thesis using h1 h2 h3 h4 a b by simp
qed

text \<open>
  C8, as the claim states it, fails. The exception is Python's \<^verbatim>\<open>IndexError\<close>, raised by
  \<^verbatim>\<open>string_literal[0]\<close>: the source has no check, no exception class and no message of
  its own. And the knowledge base is not rolled back. The query \<^verbatim>\<open>A OR \<close> is stripped to
  \<^verbatim>\<open>A OR\<close> and split into \<^verbatim>\<open>A \<close> and the empty string: the first piece appends the
  clause \<open>-A\<close> to \<^verbatim>\<open>self.clauses\<close>, the second raises. The object then holds the clause
  \<open>-A\<close>, and \<^verbatim>\<open>pl_resolution\<close> runs on it and returns a verdict.
\<close>

theorem build_knowledge_base_keeps_clauses_counterexample:
  "split_OR (strip ''A OR '') = [''A '', []] \<and>
   parse_literal [] = Inl IndexError \<and>
   build_knowledge_base \<lparr>clauses = []\<rparr> ''A OR '' [''B''] =
     (\<lparr>clauses = [\<lparr>literals = [\<lparr>symbol = ''A'', negation = True\<rparr>]\<rparr>]\<rparr>, Some IndexError) \<and>
   pl_resolution \<lparr>clauses = [\<lparr>literals = [\<lparr>symbol = ''A'', negation = True\<rparr>]\<rparr>]\<rparr> = (False, [[]])"
proof -
  have "split_OR (strip ''A OR '') = [''A '', []]"
    by (simp add: strip_def is_space_def split_OR_def)
  moreover have "parse_literal [] = Inl IndexError"
    by (simp add: parse_literal_def)
  moreover have "build_knowledge_base \<lparr>clauses = []\<rparr> ''A OR '' [''B''] =
     (\<lparr>clauses = [\<lparr>literals = [\<lparr>symbol = ''A'', negation = True\<rparr>]\<rparr>]\<rparr>, Some IndexError)"
    by code_simp
  moreover have "pl_resolution \<lparr>clauses = [\<lparr>literals = [\<lparr>symbol = ''A'', negation = True\<rparr>]\<rparr>]\<rparr> = (False, [[]])"
    by code_simp
  ultimately show ?thesis by blast
qed

text \<open>
  C8, amended. A token that is empty after stripping makes \<^verbatim>\<open>parse_literal\<close> raise
  \<^verbatim>\<open>IndexError\<close>, from \<^verbatim>\<open>string_literal[0]\<close>, instead of returning a literal. When such a
  token is a piece of the query or of a clause string, the build raises and so does
  \<^verbatim>\<open>main\<close>, which computes no verdict. The build does not undo what it did: the object
  keeps its clauses and, after them, the negated clause of every piece of the query before
  the first piece that does not parse and, when every piece parsed, the cleaned clause of
  every clause string before the first one that does not parse. The build raises exactly
  when some piece or some clause string does not parse.
\<close>

theorem empty_token_raises_and_build_keeps_prefix:
  "(strip t = [] \<longrightarrow> parse_literal t = Inl IndexError) \<and>
   ((\<exists>p \<in> set (split_OR (strip alpha_string)). strip p = []) \<or>
    (\<exists>s \<in> set clause_strings. \<exists>q \<in> set (split_OR (strip s)). strip q = []) \<longrightarrow>
      snd (build_knowledge_base self alpha_string clause_strings) = Some IndexError \<and>
      main_run alpha_string clause_strings = Inl IndexError) \<and>
   fst (build_knowledge_base self alpha_string clause_strings) =
     self\<lparr>clauses := clauses self @
        map (\<lambda>s. negate_literals (projr (parse_clause s)))
          (takeWhile (\<lambda>s. \<not> isl (parse_clause s)) (split_OR (strip alpha_string))) @
        (if list_all (\<lambda>s. \<not> isl (parse_clause s)) (split_OR (strip alpha_string))
         then map (\<lambda>s. clean (projr (parse_clause s)))
                (takeWhile (\<lambda>s. \<not> isl (parse_clause s)) clause_strings)
         else [])\<rparr> \<and>
   snd (build_knowledge_base self alpha_string clause_strings) =
     (if list_all (\<lambda>s. \<not> isl (parse_clause s)) (split_OR (strip alpha_string)) \<and>
         list_all (\<lambda>s. \<not> isl (parse_clause s)) clause_strings
      then None else Some IndexError)"
proof -
  have "snd (build_knowledge_base self alpha_string clause_strings) = Some IndexError \<and>
      main_run alpha_string clause_strings = Inl IndexError"
    if "(\<exists>p \<in> set (split_OR (strip alpha_string)). strip p = []) \<or>
      (\<exists>s \<in> set clause_strings. \<exists>q \<in> set (split_OR (strip s)). strip q = [])"
    using that build_fail_alpha build_fail_support main_run_fail by blast
  moreover have "strip t = [] \<longrightarrow> parse_literal t = Inl IndexError"
    using parse_literal_empty by blast
  ultimately show ?thesis
    by (simp add: build_knowledge_base_prefix [of self alpha_string clause_strings])
qed

theorem empty_token_raises_and_build_keeps_prefix_witness:
  "strip ''  '' = [] \<and> parse_literal ''  '' = Inl IndexError \<and>
   '' '' \<in> set (split_OR (strip ''A OR OR B'')) \<and> strip '' '' = [] \<and>
   snd (build_knowledge_base \<lparr>clauses = []\<rparr> ''A OR OR B'' [''C'']) = Some IndexError \<and>
   main_run ''A OR OR B'' [''C''] = Inl IndexError \<and>
   fst (build_knowledge_base \<lparr>clauses = []\<rparr> ''A OR OR B'' [''C'']) =
     \<lparr>clauses = [\<lparr>literals = [\<lparr>symbol = ''A'', negation = True\<rparr>]\<rparr>]\<rparr> \<and>
   [] \<in> set (split_OR (strip [])) \<and>
   snd (build_knowledge_base \<lparr>clauses = []\<rparr> ''A'' [''B'', []]) = Some IndexError \<and>
   main_run ''A'' [''B'', []] = Inl IndexError \<and>
   fst (build_knowledge_base \<lparr>clauses = []\<rparr> ''A'' [''B'', []]) =
     \<lparr>clauses = [\<lparr>literals = [\<lparr>symbol = ''A'', negation = True\<rparr>]\<rparr>, \<lparr>literals = [\<lparr>symbol = ''B'', negation = False\<rparr>]\<rparr>]\<rparr>"
proof -
  have h1: "strip ''  '' = []" by (simp add: strip_def is_space_def)
  have h2: "'' '' \<in> set (split_OR (strip ''A OR OR B''))"
    by (simp add: strip_def is_space_def split_OR_def)
  have h3: "strip '' '' = []" by (simp add: strip_def is_space_def)
  have h4: "[] \<in> set (split_OR (strip []))" by (simp add: split_OR_def)
  have a: "parse_literal ''  '' = Inl IndexError"
    using h1 empty_token_raises_and_build_keeps_prefix [of "''  ''"] by blast
  have b: "snd (build_knowledge_base \<lparr>clauses = []\<rparr> ''A OR OR B'' [''C'']) = Some IndexError \<and>
      main_run ''A OR OR B'' [''C''] = Inl IndexError"
    using h2 h3
      empty_token_raises_and_build_keeps_prefix [of _ "''A OR OR B''" "[''C'']" "\<lparr>clauses = []\<rparr>"]
    by blast
  have e1: "\<lparr>clauses = []\<rparr>\<lparr>clauses := clauses \<lparr>clauses = []\<rparr> @
        map (\<lambda>s. negate_literals (projr (parse_clause s)))
          (takeWhile (\<lambda>s. \<not> isl (parse_clause s)) (split_OR (strip ''A OR OR B''))) @
        (if list_all (\<lambda>s. \<not> isl (parse_clause s)) (split_OR (strip ''A OR OR B''))
         then map (\<lambda>s. clean (projr (parse_clause s)))
                (takeWhile (\<lambda>s. \<not> isl (parse_clause s)) [''C''])
         else [])\<rparr> = \<lparr>clauses = [\<lparr>literals = [\<lparr>symbol = ''A'', negation = True\<rparr>]\<rparr>]\<rparr>"
    by code_simp
  have f1: "fst (build_knowledge_base \<lparr>clauses = []\<rparr> ''A OR OR B'' [''C'']) =
     \<lparr>clauses = [\<lparr>literals = [\<lparr>symbol = ''A'', negation = True\<rparr>]\<rparr>]\<rparr>"
    using empty_token_raises_and_build_keeps_prefix [of _ "''A OR OR B''" "[''C'']" "\<lparr>clauses = []\<rparr>"]
    unfolding e1 by blast
  have s0: "([] :: string) \<in> set [''B'', []]" by simp
  have s1: "strip [] = []" by simp
  have "\<exists>s \<in> set [''B'', []]. \<exists>q \<in> set (split_OR (strip s)). strip q = []"
    using s0 s1 h4 by blast
  then have c: "snd (build_knowledge_base \<lparr>clauses = []\<rparr> ''A'' [''B'', []]) = Some IndexError \<and>
      main_run ''A'' [''B'', []] = Inl IndexError"
    using empty_token_raises_and_build_keeps_prefix [of _ "''A''" "[''B'', []]" "\<lparr>clauses = []\<rparr>"]
    by blast
  have e2: "\<lparr>clauses = []\<rparr>\<lparr>clauses := clauses \<lparr>clauses = []\<rparr> @
        map (\<lambda>s. negate_literals (projr (parse_clause s)))
          (takeWhile (\<lambda>s. \<not> isl (parse_clause s)) (split_OR (strip ''A''))) @
        (if list_all (\<lambda>s. \<not> isl (parse_clause s)) (split_OR (strip ''A''))
         then map (\<lambda>s. clean (projr (parse_clause s)))
                (takeWhile (\<lambda>s. \<not> isl (parse_clause s)) [''B'', []])
         else [])\<rparr> = \<lparr>clauses = [\<lparr>literals = [\<lparr>symbol = ''A'', negation = True\<rparr>]\<rparr>, \<lparr>literals = [\<lparr>symbol = ''B'', negation = False\<rparr>]\<rparr>]\<rparr>"
    by code_simp
  have f2: "fst (build_knowledge_base \<lparr>clauses = []\<rparr> ''A'' [''B'', []]) =
     \<lparr>clauses = [\<lparr>literals = [\<lparr>symbol = ''A'', negation = True\<rparr>]\<rparr>, \<lparr>literals = [\<lparr>symbol = ''B'', negation = False\<rparr>]\<rparr>]\<rparr>"
    using empty_token_raises_and_build_keeps_prefix [of _ "''A''" "[''B'', []]" "\<lparr>clauses = []\<rparr>"]
    unfolding e2 by blast
  show ?thesis using h1 h2 h3 h4 a b c f1 f2 by blast
qed

text \<open>
  C7. For a query made of \<open>k \<ge> 1\<close> literal tokens joined by \<^verbatim>\<open>' OR '\<close>, and clause
  strings that all parse, \<^verbatim>\<open>build_knowledge_base\<close> appends \<open>k\<close> clauses of one literal
  each, the query's literals with the flag flipped, in their order, and after them the
  parsed clauses, which are cleaned.
\<close>

theorem build_knowledge_base_negates_each_literal:
  assumes "ls \<noteq> []" "\<forall>l \<in> set ls. one_symbol l"
    and "map parse_clause clause_strings = map Inr cs"
  shows "build_knowledge_base self (join_OR (map repr_literal ls)) clause_strings =
           (self\<lparr>clauses := clauses self @ map (\<lambda>l. \<lparr>literals = [negate l]\<rparr>) ls @ cs\<rparr>, None) \<and>
         map clean cs = cs"
proof -
  have "add_alpha self (split_OR (strip (join_OR (map repr_literal ls)))) =
      (self\<lparr>clauses := clauses self @ map (\<lambda>l. \<lparr>literals = [negate l]\<rparr>) ls\<rparr>, None)"
    unfolding split_OR_def strip_join_OR [OF assms(1,2)]
    using assms(1,2) by (intro add_alpha_join) simp_all
  moreover have cl: "map clean cs = cs"
  proof (rule map_idI)
    fix c assume "c \<in> set cs"
    then have "Inr c \<in> set (map parse_clause clause_strings)"
      unfolding assms(3) by simp
    then obtain s where "parse_clause s = Inr c" by auto
    then show "clean c = c" by (rule parse_clause_clean)
  qed
  ultimately show ?thesis
    by (simp add: build_knowledge_base_def add_support_ok [OF assms(3)])
qed

theorem build_knowledge_base_negates_each_literal_witness:
  "[\<lparr>symbol = ''A'', negation = False\<rparr>, \<lparr>symbol = ''B'', negation = True\<rparr>] \<noteq> [] \<and>
   one_symbol \<lparr>symbol = ''A'', negation = False\<rparr> \<and> one_symbol \<lparr>symbol = ''B'', negation = True\<rparr> \<and>
   map parse_clause [''B OR A'', ''-A''] =
     map Inr [\<lparr>literals = [\<lparr>symbol = ''A'', negation = False\<rparr>, \<lparr>symbol = ''B'', negation = False\<rparr>]\<rparr>, \<lparr>literals = [\<lparr>symbol = ''A'', negation = True\<rparr>]\<rparr>] \<and>
   join_OR (map repr_literal [\<lparr>symbol = ''A'', negation = False\<rparr>, \<lparr>symbol = ''B'', negation = True\<rparr>]) = ''A OR -B'' \<and>
   build_knowledge_base \<lparr>clauses = []\<rparr> ''A OR -B'' [''B OR A'', ''-A''] =
     (\<lparr>clauses = [\<lparr>literals = [\<lparr>symbol = ''A'', negation = True\<rparr>]\<rparr>, \<lparr>literals = [\<lparr>symbol = ''B'', negation = False\<rparr>]\<rparr>,
                  \<lparr>literals = [\<lparr>symbol = ''A'', negation = False\<rparr>, \<lparr>symbol = ''B'', negation = False\<rparr>]\<rparr>, \<lparr>literals = [\<lparr>symbol = ''A'', negation = True\<rparr>]\<rparr>]\<rparr>, None)"
proof -
  have h1: "[\<lparr>symbol = ''A'', negation = False\<rparr>, \<lparr>symbol = ''B'', negation = True\<rparr>] \<noteq> []" by simp
  have h2: "one_symbol \<lparr>symbol = ''A'', negation = False\<rparr>" "one_symbol \<lparr>symbol = ''B'', negation = True\<rparr>"
    by (simp_all add: one_symbol_def is_space_def)
  then have h2': "\<forall>l \<in> set [\<lparr>symbol = ''A'', negation = False\<rparr>, \<lparr>symbol = ''B'', negation = True\<rparr>]. one_symbol l" by simp
  have h3: "map parse_clause [''B OR A'', ''-A''] =
     map Inr [\<lparr>literals = [\<lparr>symbol = ''A'', negation = False\<rparr>, \<lparr>symbol = ''B'', negation = False\<rparr>]\<rparr>, \<lparr>literals = [\<lparr>symbol = ''A'', negation = True\<rparr>]\<rparr>]"
    by code_simp
  have h4: "join_OR (map repr_literal [\<lparr>symbol = ''A'', negation = False\<rparr>, \<lparr>symbol = ''B'', negation = True\<rparr>]) = ''A OR -B''"
    by (simp add: repr_literal_def)
  show ?thesis
    using h1 h2 h3 h4
      build_knowledge_base_negates_each_literal [OF h1 h2' h3, of "\<lparr>clauses = []\<rparr>"]
    by (simp add: negate_def)
qed

section \<open>Resolution does not mutate\<close>

text \<open>
  C9. On the heap, \<^verbatim>\<open>clone_without_literal\<close> and \<^verbatim>\<open>merge\<close> allocate one object and
  leave every object that existed before as it was; \<^verbatim>\<open>resolve\<close> returns with a heap whose
  first \<open>length h\<close> objects are the objects of \<open>h\<close>, unchanged, the two input clauses
  among them, and its resolvents are new objects; \<^verbatim>\<open>pl_resolution\<close> returns, with the
  \<^verbatim>\<open>KnowledgeBase\<close> object as it was, the clauses it lists unchanged like every object
  that existed before. The results are those of the functions on values.
\<close>

theorem resolution_allocates_only:
  "(self < length h \<longrightarrow>
      h_clone_without_literal h self l = (length h, h @ [clone_without_literal (h ! self) l])) \<and>
   (c1 < length h \<and> c2 < length h \<longrightarrow>
      h_merge h c1 c2 = (length h, h @ [merge (h ! c1) (h ! c2)])) \<and>
   (c1 < length h \<and> c2 < length h \<longrightarrow>
      (\<exists>rs e h'. h_resolve h c1 c2 = (rs, e, h') \<and> take (length h) h' = h \<and>
         h' ! c1 = h ! c1 \<and> h' ! c2 = h ! c2 \<and>
         (\<forall>r \<in> set rs. length h \<le> r \<and> r < length h') \<and>
         (contents h' rs, e) = resolve (h ! c1) (h ! c2))) \<and>
   ((\<forall>a \<in> set (h_clauses kb). a < length h) \<longrightarrow>
      (\<exists>entailed outs h'. h_pl_resolution h kb = Some (entailed, outs, kb, h') \<and>
         take (length h) h' = h \<and>
         contents h' (h_clauses kb) = contents h (h_clauses kb) \<and>
         (entailed, map (contents h') outs) = pl_resolution \<lparr>clauses = contents h (h_clauses kb)\<rparr>))"
proof (intro conjI impI)
  assume "self < length h"
  then show "h_clone_without_literal h self l = (length h, h @ [clone_without_literal (h ! self) l])"
    by (rule h_clone_without_literal_eq)
next
  assume "c1 < length h \<and> c2 < length h"
  then show "h_merge h c1 c2 = (length h, h @ [merge (h ! c1) (h ! c2)])"
    by (simp add: h_merge_eq)
next
  assume v: "c1 < length h \<and> c2 < length h"
  obtain rs e h' where r: "h_resolve h c1 c2 = (rs, e, h')" by (cases "h_resolve h c1 c2")
  from v h_resolve_rel [of c1 h c2] r
  have "take (length h) h' = h" "\<forall>r \<in> set rs. length h \<le> r \<and> r < length h'"
    "(contents h' rs, e) = resolve (h ! c1) (h ! c2)"
    by (simp_all add: resolve_rel_def)
  moreover from this(1) v have "h' ! c1 = h ! c1" "h' ! c2 = h ! c2"
    by (simp_all add: frame_nth)
  ultimately show "\<exists>rs e h'. h_resolve h c1 c2 = (rs, e, h') \<and> take (length h) h' = h \<and>
         h' ! c1 = h ! c1 \<and> h' ! c2 = h ! c2 \<and>
         (\<forall>r \<in> set rs. length h \<le> r \<and> r < length h') \<and>
         (contents h' rs, e) = resolve (h ! c1) (h ! c2)" using r by blast
next
  assume v: "\<forall>a \<in> set (h_clauses kb). a < length h"
  let ?ws = "h_set_of_list h (h_clauses kb)"
  have "set ?ws \<subseteq> set (h_clauses kb)"
    using set_h_set_update [of h "[]" "h_clauses kb"] by (simp add: h_set_of_list_def)
  with v have "\<forall>a \<in> set ?ws. a < length h" by blast
  from h_pl_loop_refines [OF this, of "[]" False]
  obtain outs h' where r: "h_pl_loop h ?ws [] False =
      Some (fst (pl_loop (contents h ?ws) [] False), outs, h')"
    "take (length h) h' = h"
    "map (contents h') outs = snd (pl_loop (contents h ?ws) [] False)"
    by auto
  have "pl_resolution \<lparr>clauses = contents h (h_clauses kb)\<rparr> = pl_loop (contents h ?ws) [] False"
    by (simp add: pl_resolution_def h_set_of_list_contents)
  moreover have "contents h' (h_clauses kb) = contents h (h_clauses kb)"
    using r(2) v by (simp add: contents_def frame_nth)
  ultimately show "\<exists>entailed outs h'. h_pl_resolution h kb = Some (entailed, outs, kb, h') \<and>
         take (length h) h' = h \<and>
         contents h' (h_clauses kb) = contents h (h_clauses kb) \<and>
         (entailed, map (contents h') outs) = pl_resolution \<lparr>clauses = contents h (h_clauses kb)\<rparr>"
    using r by (simp add: h_pl_resolution_def)
qed

theorem resolution_allocates_only_witness:
  "h_clone_without_literal [\<lparr>literals = [\<lparr>symbol = ''A'', negation = False\<rparr>]\<rparr>,
      \<lparr>literals = [\<lparr>symbol = ''A'', negation = True\<rparr>]\<rparr>] 0 \<lparr>symbol = ''A'', negation = False\<rparr> =
     (2, [\<lparr>literals = [\<lparr>symbol = ''A'', negation = False\<rparr>]\<rparr>,
      \<lparr>literals = [\<lparr>symbol = ''A'', negation = True\<rparr>]\<rparr>] @ [\<lparr>literals = []\<rparr>]) \<and>
   h_merge [\<lparr>literals = [\<lparr>symbol = ''A'', negation = False\<rparr>]\<rparr>,
      \<lparr>literals = [\<lparr>symbol = ''A'', negation = True\<rparr>]\<rparr>] 0 1 =
     (2, [\<lparr>literals = [\<lparr>symbol = ''A'', negation = False\<rparr>]\<rparr>,
      \<lparr>literals = [\<lparr>symbol = ''A'', negation = True\<rparr>]\<rparr>] @ [\<lparr>literals = [\<lparr>symbol = ''A'', negation = False\<rparr>, \<lparr>symbol = ''A'', negation = True\<rparr>]\<rparr>]) \<and>
   h_resolve [\<lparr>literals = [\<lparr>symbol = ''A'', negation = False\<rparr>]\<rparr>,
      \<lparr>literals = [\<lparr>symbol = ''A'', negation = True\<rparr>]\<rparr>] 0 1 = ([4], True, [\<lparr>literals = [\<lparr>symbol = ''A'', negation = False\<rparr>]\<rparr>,
      \<lparr>literals = [\<lparr>symbol = ''A'', negation = True\<rparr>]\<rparr>,
      \<lparr>literals = []\<rparr>, \<lparr>literals = []\<rparr>, \<lparr>literals = []\<rparr>]) \<and>
   take 2 [\<lparr>literals = [\<lparr>symbol = ''A'', negation = False\<rparr>]\<rparr>,
      \<lparr>literals = [\<lparr>symbol = ''A'', negation = True\<rparr>]\<rparr>,
      \<lparr>literals = []\<rparr>, \<lparr>literals = []\<rparr>, \<lparr>literals = []\<rparr>] = [\<lparr>literals = [\<lparr>symbol = ''A'', negation = False\<rparr>]\<rparr>,
      \<lparr>literals = [\<lparr>symbol = ''A'', negation = True\<rparr>]\<rparr>] \<and>
   h_pl_resolution [\<lparr>literals = [\<lparr>symbol = ''A'', negation = False\<rparr>]\<rparr>,
      \<lparr>literals = [\<lparr>symbol = ''A'', negation = True\<rparr>]\<rparr>] \<lparr>h_clauses = [0, 1]\<rparr> = Some (True, [[4]], \<lparr>h_clauses = [0, 1]\<rparr>, [\<lparr>literals = [\<lparr>symbol = ''A'', negation = False\<rparr>]\<rparr>,
      \<lparr>literals = [\<lparr>symbol = ''A'', negation = True\<rparr>]\<rparr>,
      \<lparr>literals = []\<rparr>, \<lparr>literals = []\<rparr>, \<lparr>literals = []\<rparr>]) \<and>
   pl_resolution \<lparr>clauses = [\<lparr>literals = [\<lparr>symbol = ''A'', negation = False\<rparr>]\<rparr>,
      \<lparr>literals = [\<lparr>symbol = ''A'', negation = True\<rparr>]\<rparr>]\<rparr> = (True, [[\<lparr>literals = []\<rparr>]])"
proof -
  let ?h = "[\<lparr>literals = [\<lparr>symbol = ''A'', negation = False\<rparr>]\<rparr>,
      \<lparr>literals = [\<lparr>symbol = ''A'', negation = True\<rparr>]\<rparr>]"
  let ?h2 = "[\<lparr>literals = [\<lparr>symbol = ''A'', negation = False\<rparr>]\<rparr>,
      \<lparr>literals = [\<lparr>symbol = ''A'', negation = True\<rparr>]\<rparr>,
      \<lparr>literals = []\<rparr>, \<lparr>literals = []\<rparr>, \<lparr>literals = []\<rparr>]"
  let ?kb = "\<lparr>h_clauses = [0, 1]\<rparr>"
  let ?A = "\<lparr>symbol = ''A'', negation = False\<rparr>"
  have len: "length ?h = 2" by simp
  have v: "(0::nat) < length ?h" "(0::nat) < length ?h \<and> (1::nat) < length ?h"
    "\<forall>a \<in> set (h_clauses ?kb). a < length ?h"
    by simp_all
  note t = resolution_allocates_only [of 0 ?h ?A 0 1 ?kb]
  have n0: "?h ! 0 = \<lparr>literals = [?A]\<rparr>" and n1: "?h ! 1 = \<lparr>literals = [\<lparr>symbol = ''A'', negation = True\<rparr>]\<rparr>"
    by simp_all
  have e3: "clone_without_literal \<lparr>literals = [?A]\<rparr> ?A = \<lparr>literals = []\<rparr>"
    by code_simp
  have e4: "merge \<lparr>literals = [?A]\<rparr> \<lparr>literals = [\<lparr>symbol = ''A'', negation = True\<rparr>]\<rparr> =
      \<lparr>literals = [?A, \<lparr>symbol = ''A'', negation = True\<rparr>]\<rparr>"
    by code_simp
  have "h_clone_without_literal ?h 0 ?A = (length ?h, ?h @ [clone_without_literal (?h ! 0) ?A])"
    using t v(1) by blast
  then have a: "h_clone_without_literal ?h 0 ?A = (2, ?h @ [\<lparr>literals = []\<rparr>])"
    unfolding len n0 e3 .
  have "h_merge ?h 0 1 = (length ?h, ?h @ [merge (?h ! 0) (?h ! 1)])"
    using t v(2) by blast
  then have b: "h_merge ?h 0 1 = (2, ?h @ [\<lparr>literals = [?A, \<lparr>symbol = ''A'', negation = True\<rparr>]\<rparr>])"
    unfolding len n0 n1 e4 .
  have e1: "h_resolve ?h 0 1 = ([4], True, ?h2)"
    by code_simp
  have e0: "h_set_of_list ?h [0, 1] = [0, 1]" by code_simp
  have el: "h_pl_loop ?h [0, 1] [] False = Some (True, [[4]], ?h2)"
    by (subst h_pl_loop.simps) code_simp
  have e2: "h_pl_resolution ?h ?kb = Some (True, [[4]], ?kb, ?h2)"
    by (simp only: h_pl_resolution_def h_knowledge_base.select_convs e0 el option.case prod.case)
  from t v(3) obtain en outs h' where r: "h_pl_resolution ?h ?kb = Some (en, outs, ?kb, h')"
    "take (length ?h) h' = ?h"
    "(en, map (contents h') outs) = pl_resolution \<lparr>clauses = contents ?h (h_clauses ?kb)\<rparr>"
    by blast
  from r(1) have eq: "en = True" "outs = [[4]]" "h' = ?h2" unfolding e2 by simp_all
  have c1: "take 2 ?h2 = ?h" using r(2) unfolding eq len .
  have "contents ?h (h_clauses ?kb) = ?h" by (simp add: contents_def)
  moreover have "map (contents ?h2) [[4]] = [[\<lparr>literals = []\<rparr>]]" by (simp add: contents_def)
  ultimately have c2: "pl_resolution \<lparr>clauses = ?h\<rparr> = (True, [[\<lparr>literals = []\<rparr>]])"
    using r(3) unfolding eq by simp
  show ?thesis using a b e1 c1 e2 c2 by blast
qed

end
